theory Spec2Isabelle
  imports Main "HOL-Library.AList" "HOL-Library.Sublist"
begin

section \<open>Strings and the field separator\<close>

text \<open>
  Go strings are byte sequences, and \<^verbatim>\<open>strings.Contains\<close>, \<^verbatim>\<open>strings.Index\<close> and
  slicing work on bytes; a \<^typ>\<open>string\<close> is a list of bytes. The separator
  \<^verbatim>\<open>fieldSep\<close> of the source is the currency sign, two bytes in UTF-8.
\<close>

definition fieldSep :: string where
  "fieldSep = [CHR 0xC2, CHR 0xA4]"

text \<open>\<^verbatim>\<open>strings.Contains(s, substr)\<close>: whether \<open>substr\<close> is within \<open>s\<close>.\<close>

fun Contains :: "string \<Rightarrow> string \<Rightarrow> bool" where
  "Contains [] substr = (substr = [])"
| "Contains (c # cs) substr = (prefix substr (c # cs) \<or> Contains cs substr)"

text \<open>
  \<^verbatim>\<open>strings.Index(s, substr)\<close>: the index of the first instance of \<open>substr\<close> in
  \<open>s\<close>, or \<open>-1\<close> when there is none.
\<close>

fun Index :: "string \<Rightarrow> string \<Rightarrow> int" where
  "Index [] substr = (if substr = [] then 0 else - 1)"
| "Index (c # cs) substr =
     (if prefix substr (c # cs) then 0
      else (let pos = Index cs substr in if pos = - 1 then - 1 else pos + 1))"

section \<open>Errors\<close>

text \<open>
  A Go \<^verbatim>\<open>error\<close> value. \<open>Errorf\<close> is an error built by \<^verbatim>\<open>fmt.Errorf\<close> with the
  given message; \<open>CouldNotRemoveKv e\<close> is
  \<^verbatim>\<open>fmt.Errorf("could not remove kv: %s", err)\<close>, whose message is determined by the
  wrapped error. The other constructors are the failures the backing store reports.
  A \<^verbatim>\<open>nil\<close> error is \<open>None\<close> of the option type.
\<close>

datatype error =
    NotFound
  | BackingStoreError string
  | TransactionError string
  | Errorf string
  | CouldNotRemoveKv error

text \<open>
  Modelled from the spec: \<^verbatim>\<open>noResult\<close> is not among the source files. The spec says
  that \<open>NotFound\<close> on the underlying read is what \<^verbatim>\<open>Has\<close> translates to
  \<open>false\<close> with no error.
\<close>

definition noResult :: "error \<Rightarrow> bool" where
  "noResult err = (err = NotFound)"

text \<open>
  Modelled from the spec: \<^verbatim>\<open>hasS\<close> is not among the source files. The spec's
  "if not already known" and "not already in PropertyIndex" are membership in the list
  of strings.
\<close>

definition hasS :: "string list \<Rightarrow> string \<Rightarrow> bool" where
  "hasS xs x = (x \<in> set xs)"

section \<open>The host and its two tables\<close>

text \<open>
  The database behind a \<^verbatim>\<open>HashMap2\<close>, restricted to its two tables: \<open>kv_rows\<close> are
  the rows of the KeyValue table \<^verbatim>\<open>hm2.table\<close> (composite key, stored value) and
  \<open>set_rows\<close> the rows of the Set table \<^verbatim>\<open>hm2.seenPropTable\<close>. \<open>rawUTF8\<close> is the
  host's flag. \<open>Encode\<close> and \<open>Decode\<close> are package-level functions of the
  repository that are not among the source files; they are parameters, carried here.

  Every call of the backing store may fail. \<open>faults\<close> schedules the outcomes: each
  call of a primitive takes the head of the list; \<open>Some e\<close> makes the call fail with
  \<open>e\<close> and change nothing, \<open>None\<close> (or an empty list) lets it go through.
\<close>

record host =
  rawUTF8 :: bool
  Encode :: "string \<Rightarrow> string"
  Decode :: "string \<Rightarrow> string"
  kv_rows :: "(string \<times> string) list"
  set_rows :: "string list"
  faults :: "error option list"

definition next_fault :: "host \<Rightarrow> error option \<times> host" where
  "next_fault h = (case faults h of [] \<Rightarrow> (None, h) | f # fs \<Rightarrow> (f, h\<lparr>faults := fs\<rparr>))"

subsection \<open>KeyValue (the spec's FlatStore)\<close>

text \<open>
  Modelled from the spec: \<^verbatim>\<open>KeyValue.Get\<close> is not among the source files. The spec:
  \<open>get(key) -> value | NotFound\<close>; a missing key signals \<open>NotFound\<close>; decoding is
  applied on read unless the raw-bytes-safe flag is set.
\<close>

definition KeyValue_Get :: "host \<Rightarrow> string \<Rightarrow> (error + string) \<times> host" where
  "KeyValue_Get h key =
     (case next_fault h of
        (Some e, h1) \<Rightarrow> (Inl e, h1)
      | (None, h1) \<Rightarrow>
          (case map_of (kv_rows h1) key of
             None \<Rightarrow> (Inl NotFound, h1)
           | Some s \<Rightarrow> (Inr (if \<not> rawUTF8 h1 then Decode h1 s else s), h1)))"

text \<open>
  Modelled from the spec: \<^verbatim>\<open>KeyValue.Del\<close> is not among the source files. The spec:
  \<open>del(key)\<close>; deleting a key that is not there is a no-op, not an error.
\<close>

definition KeyValue_Del :: "host \<Rightarrow> string \<Rightarrow> error option \<times> host" where
  "KeyValue_Del h key =
     (case next_fault h of
        (Some e, h1) \<Rightarrow> (Some e, h1)
      | (None, h1) \<Rightarrow> (None, h1\<lparr>kv_rows := AList.delete key (kv_rows h1)\<rparr>))"

text \<open>
  Modelled from the spec: \<^verbatim>\<open>KeyValue.All\<close> is not among the source files. The spec:
  \<open>enumerateAll() -> sequence of key\<close>, all keys, in an order of the implementation's.
\<close>

definition KeyValue_All :: "host \<Rightarrow> (error + string list) \<times> host" where
  "KeyValue_All h =
     (case next_fault h of
        (Some e, h1) \<Rightarrow> (Inl e, h1)
      | (None, h1) \<Rightarrow> (Inr (map fst (kv_rows h1)), h1))"

text \<open>
  Modelled from the spec: \<^verbatim>\<open>KeyValue.Clear\<close> and \<^verbatim>\<open>KeyValue.Remove\<close> are not among
  the source files. The spec: \<open>clear()\<close> empties the table and keeps it usable,
  \<open>removeTable()\<close> drops it. A dropped table holds no rows; the spec calls the handle
  unusable afterwards and says nothing more of a later call.
\<close>

definition KeyValue_Clear :: "host \<Rightarrow> error option \<times> host" where
  "KeyValue_Clear h =
     (case next_fault h of
        (Some e, h1) \<Rightarrow> (Some e, h1)
      | (None, h1) \<Rightarrow> (None, h1\<lparr>kv_rows := []\<rparr>))"

definition KeyValue_Remove :: "host \<Rightarrow> error option \<times> host" where
  "KeyValue_Remove h =
     (case next_fault h of
        (Some e, h1) \<Rightarrow> (Some e, h1)
      | (None, h1) \<Rightarrow> (None, h1\<lparr>kv_rows := []\<rparr>))"

subsection \<open>Set (the spec's UniqueSet)\<close>

text \<open>
  Modelled from the spec: \<^verbatim>\<open>Set.Add\<close>, \<^verbatim>\<open>Set.All\<close>, \<^verbatim>\<open>Set.Clear\<close> and
  \<^verbatim>\<open>Set.Remove\<close> are not among the source files. The spec: \<open>add(value)\<close> is a
  no-op that succeeds when the value is already there and never makes a duplicate;
  \<open>enumerateAll()\<close> gives the values; \<open>clear()\<close> empties the table; \<open>removeTable()\<close>
  drops it.
\<close>

definition Set_Add :: "host \<Rightarrow> string \<Rightarrow> error option \<times> host" where
  "Set_Add h v =
     (case next_fault h of
        (Some e, h1) \<Rightarrow> (Some e, h1)
      | (None, h1) \<Rightarrow>
          (None, if v \<in> set (set_rows h1) then h1 else h1\<lparr>set_rows := set_rows h1 @ [v]\<rparr>))"

definition Set_All :: "host \<Rightarrow> (error + string list) \<times> host" where
  "Set_All h =
     (case next_fault h of
        (Some e, h1) \<Rightarrow> (Inl e, h1)
      | (None, h1) \<Rightarrow> (Inr (set_rows h1), h1))"

definition Set_Clear :: "host \<Rightarrow> error option \<times> host" where
  "Set_Clear h =
     (case next_fault h of
        (Some e, h1) \<Rightarrow> (Some e, h1)
      | (None, h1) \<Rightarrow> (None, h1\<lparr>set_rows := []\<rparr>))"

definition Set_Remove :: "host \<Rightarrow> error option \<times> host" where
  "Set_Remove h =
     (case next_fault h of
        (Some e, h1) \<Rightarrow> (Some e, h1)
      | (None, h1) \<Rightarrow> (None, h1\<lparr>set_rows := []\<rparr>))"

subsection \<open>Transactions on the KeyValue table\<close>

text \<open>
  A transaction (\<^verbatim>\<open>*sql.Tx\<close>) is the list of the writes issued in it, oldest first.
  They reach the table when the transaction commits, and never when it is rolled
  back. The result of \<^verbatim>\<open>Rollback\<close> is thrown away by every caller in the source.

  Modelled from the spec: \<^verbatim>\<open>KeyValue.setWithTransaction\<close> and
  \<^verbatim>\<open>KeyValue.updateWithTransaction\<close> are not among the source files. The spec:
  \<open>set(key, value)\<close> is an upsert, last writer wins; the bulk path "issues one write
  per triple inside a single transaction"; operations run inside a transaction supplied
  by the caller, who rolls back on failure.
\<close>

type_synonym tx = "(string \<times> string) list"

definition BeginTx :: "host \<Rightarrow> (error + tx) \<times> host" where
  "BeginTx h =
     (case next_fault h of
        (Some e, h1) \<Rightarrow> (Inl e, h1)
      | (None, h1) \<Rightarrow> (Inr [], h1))"

definition setWithTransaction :: "host \<Rightarrow> tx \<Rightarrow> string \<Rightarrow> string \<Rightarrow> error option \<times> tx \<times> host" where
  "setWithTransaction h transaction key val =
     (case next_fault h of
        (Some e, h1) \<Rightarrow> (Some e, transaction, h1)
      | (None, h1) \<Rightarrow> (None, transaction @ [(key, val)], h1))"

definition updateWithTransaction :: "host \<Rightarrow> tx \<Rightarrow> string \<Rightarrow> string \<Rightarrow> error option \<times> tx \<times> host" where
  "updateWithTransaction h transaction key val =
     (case next_fault h of
        (Some e, h1) \<Rightarrow> (Some e, transaction, h1)
      | (None, h1) \<Rightarrow> (None, transaction @ [(key, val)], h1))"

definition apply_writes :: "(string \<times> string) list \<Rightarrow> tx \<Rightarrow> (string \<times> string) list" where
  "apply_writes rows transaction = foldl (\<lambda>r (k, v). AList.update k v r) rows transaction"

definition Commit :: "host \<Rightarrow> tx \<Rightarrow> error option \<times> host" where
  "Commit h transaction =
     (case next_fault h of
        (Some e, h1) \<Rightarrow> (Some e, h1)
      | (None, h1) \<Rightarrow> (None, h1\<lparr>kv_rows := apply_writes (kv_rows h1) transaction\<rparr>))"

definition Rollback :: "host \<Rightarrow> tx \<Rightarrow> host" where
  "Rollback h transaction = h"

section \<open>HashMap2\<close>

text \<open>
  \<^verbatim>\<open>setPropWithTransaction\<close>: the two separator checks, the key added to the property
  set outside the transaction, the value encoded unless \<open>rawUTF8\<close>, the write of
  \<open>owner + fieldSep + key\<close> in the transaction.
\<close>

definition setPropWithTransaction ::
  "host \<Rightarrow> tx \<Rightarrow> string \<Rightarrow> string \<Rightarrow> string \<Rightarrow> bool \<Rightarrow> error option \<times> tx \<times> host" where
  "setPropWithTransaction h transaction owner key val checkForFieldSep =
     (if checkForFieldSep \<and> Contains owner fieldSep
        then (Some (Errorf (''owner can not contain '' @ fieldSep)), transaction, h)
      else if checkForFieldSep \<and> Contains key fieldSep
        then (Some (Errorf (''key can not contain '' @ fieldSep)), transaction, h)
      else
        (case Set_Add h key of
           (Some err, h1) \<Rightarrow> (Some err, transaction, h1)
         | (None, h1) \<Rightarrow>
             (let encodedValue = (if \<not> rawUTF8 h1 then Encode h1 val else val)
              in setWithTransaction h1 transaction (owner @ fieldSep @ key) encodedValue)))"

text \<open>
  \<^verbatim>\<open>SetMap\<close>. The Go map \<open>m\<close> is the list of its pairs in the order the
  \<^verbatim>\<open>range\<close> loop visits them (any order; the keys of a Go map are distinct).
  \<open>SetMap_loop\<close> is the loop; it hands back the error that makes \<open>SetMap\<close> roll
  back and return.
\<close>

fun SetMap_loop ::
  "host \<Rightarrow> tx \<Rightarrow> string list \<Rightarrow> string \<Rightarrow> (string \<times> string) list \<Rightarrow> error option \<times> tx \<times> host" where
  "SetMap_loop h transaction allProperties owner [] = (None, transaction, h)"
| "SetMap_loop h transaction allProperties owner ((k, v) # m) =
     (case setPropWithTransaction h transaction owner k v True of
        (Some err, tx1, h1) \<Rightarrow> (Some err, tx1, h1)
      | (None, tx1, h1) \<Rightarrow>
          (if \<not> hasS allProperties k then
             (case Set_Add h1 k of
                (Some err, h2) \<Rightarrow> (Some err, tx1, h2)
              | (None, h2) \<Rightarrow> SetMap_loop h2 tx1 allProperties owner m)
           else SetMap_loop h1 tx1 allProperties owner m))"

definition SetMap :: "host \<Rightarrow> string \<Rightarrow> (string \<times> string) list \<Rightarrow> error option \<times> host" where
  "SetMap h owner m =
     (case Set_All h of
        (Inl err, h1) \<Rightarrow> (Some err, h1)
      | (Inr allProperties, h1) \<Rightarrow>
          (case BeginTx h1 of
             (Inl err, h2) \<Rightarrow> (Some err, h2)
           | (Inr transaction, h2) \<Rightarrow>
               (case SetMap_loop h2 transaction allProperties owner m of
                  (Some err, tx3, h3) \<Rightarrow> (Some err, Rollback h3 tx3)
                | (None, tx3, h3) \<Rightarrow> Commit h3 tx3)))"

definition Set :: "host \<Rightarrow> string \<Rightarrow> string \<Rightarrow> string \<Rightarrow> error option \<times> host" where
  "Set h owner key val = SetMap h owner [(key, val)]"

definition Get :: "host \<Rightarrow> string \<Rightarrow> string \<Rightarrow> (error + string) \<times> host" where
  "Get h owner key = KeyValue_Get h (owner @ fieldSep @ key)"

text \<open>\<^verbatim>\<open>Has\<close> returns Go's pair \<^verbatim>\<open>(bool, error)\<close>.\<close>

definition Has :: "host \<Rightarrow> string \<Rightarrow> string \<Rightarrow> (bool \<times> error option) \<times> host" where
  "Has h owner key =
     (case KeyValue_Get h (owner @ fieldSep @ key) of
        (Inl err, h1) \<Rightarrow>
          (if noResult err then ((False, None), h1) else ((False, Some err), h1))
      | (Inr s, h1) \<Rightarrow>
          (if s = [] then ((False, None), h1) else ((True, None), h1)))"

definition AllEncounteredKeys :: "host \<Rightarrow> (error + string list) \<times> host" where
  "AllEncounteredKeys h = Set_All h"

text \<open>\<^verbatim>\<open>Keys\<close>: the loop over the property set keeps a key when \<^verbatim>\<open>Has\<close> gives
  no error and \<open>true\<close>.\<close>

fun Keys_loop :: "host \<Rightarrow> string \<Rightarrow> string list \<Rightarrow> string list \<Rightarrow> string list \<times> host" where
  "Keys_loop h owner [] allKeys = (allKeys, h)"
| "Keys_loop h owner (key # allProps) allKeys =
     (case Has h owner key of
        ((found, err), h1) \<Rightarrow>
          (if err = None \<and> found then Keys_loop h1 owner allProps (allKeys @ [key])
           else Keys_loop h1 owner allProps allKeys))"

definition Keys :: "host \<Rightarrow> string \<Rightarrow> (string list \<times> error option) \<times> host" where
  "Keys h owner =
     (case Set_All h of
        (Inl err, h1) \<Rightarrow> (([], Some err), h1)
      | (Inr allProps, h1) \<Rightarrow>
          (case Keys_loop h1 owner allProps [] of
             (allKeys, h2) \<Rightarrow> ((allKeys, None), h2)))"

text \<open>
  \<^verbatim>\<open>All\<close>. The Go map \<open>foundOwners\<close> is the list of its keys, each once, in the
  order they were put in; the final \<^verbatim>\<open>range\<close> over it may visit them in any order,
  and the result is given here in that one.
\<close>

fun All_loop :: "string list \<Rightarrow> string list \<Rightarrow> string list" where
  "All_loop [] foundOwners = foundOwners"
| "All_loop (ownerAndKey # rest) foundOwners =
     (let pos = Index ownerAndKey fieldSep in
      if pos \<noteq> - 1 then
        (let owner = take (nat pos) ownerAndKey in
         if owner \<notin> set foundOwners then All_loop rest (foundOwners @ [owner])
         else All_loop rest foundOwners)
      else All_loop rest foundOwners)"

definition All :: "host \<Rightarrow> (string list \<times> error option) \<times> host" where
  "All h =
     (case KeyValue_All h of
        (Inl err, h1) \<Rightarrow> (([], Some err), h1)
      | (Inr allOwnersAndKeys, h1) \<Rightarrow> ((All_loop allOwnersAndKeys [], None), h1))"

definition Count :: "host \<Rightarrow> (int \<times> error option) \<times> host" where
  "Count h =
     (case All h of
        ((a, Some err), h1) \<Rightarrow> ((0, Some err), h1)
      | ((a, None), h1) \<Rightarrow> ((int (length a), None), h1))"

definition DelKey :: "host \<Rightarrow> string \<Rightarrow> string \<Rightarrow> error option \<times> host" where
  "DelKey h owner key = KeyValue_Del h (owner @ fieldSep @ key)"

fun Del_loop :: "host \<Rightarrow> string \<Rightarrow> string list \<Rightarrow> error option \<times> host" where
  "Del_loop h owner [] = (None, h)"
| "Del_loop h owner (key # allProps) =
     (case KeyValue_Del h (owner @ fieldSep @ key) of
        (Some err, h1) \<Rightarrow> (Some err, h1)
      | (None, h1) \<Rightarrow> Del_loop h1 owner allProps)"

definition Del :: "host \<Rightarrow> string \<Rightarrow> error option \<times> host" where
  "Del h owner =
     (case Set_All h of
        (Inl err, h1) \<Rightarrow> (Some err, h1)
      | (Inr allProps, h1) \<Rightarrow> Del_loop h1 owner allProps)"

text \<open>\<^verbatim>\<open>Remove\<close> and \<^verbatim>\<open>Clear\<close> throw the result of the property set's
  operation away.\<close>

definition Remove :: "host \<Rightarrow> error option \<times> host" where
  "Remove h =
     (case Set_Remove h of
        (ignored, h1) \<Rightarrow>
          (case KeyValue_Remove h1 of
             (Some err, h2) \<Rightarrow> (Some (CouldNotRemoveKv err), h2)
           | (None, h2) \<Rightarrow> (None, h2)))"

definition Clear :: "host \<Rightarrow> error option \<times> host" where
  "Clear h =
     (case Set_Clear h of
        (ignored, h1) \<Rightarrow>
          (case KeyValue_Clear h1 of
             (Some err, h2) \<Rightarrow> (Some err, h2)
           | (None, h2) \<Rightarrow> (None, h2)))"

text \<open>
  \<^verbatim>\<open>SetLargeMap\<close>. The Go map of maps is the list of its owners, each with the list of
  its pairs, in the order the \<^verbatim>\<open>range\<close> loops visit them (any order; Go may visit
  the owners in another order in the second loop than in the first, which changes the
  order of the new properties in their table and nothing else). The four loops of the
  source: the new properties found (\<open>findNewProps\<close>, over the owners, and
  \<open>findNewProps_owner\<close>, over one owner's keys), the new properties stored
  (\<open>storeNewProps\<close>), and the writes (\<open>updateOwners\<close> over the owners and
  \<open>updateOwner\<close> over one owner's pairs).
\<close>

fun findNewProps_owner :: "string list \<Rightarrow> (string \<times> string) list \<Rightarrow> string list \<Rightarrow> string list" where
  "findNewProps_owner props [] newProps = newProps"
| "findNewProps_owner props ((k, v) # propMap) newProps =
     (if \<not> hasS props k \<and> \<not> hasS newProps k
        then findNewProps_owner props propMap (newProps @ [k])
      else findNewProps_owner props propMap newProps)"

fun findNewProps ::
  "string list \<Rightarrow> (string \<times> (string \<times> string) list) list \<Rightarrow> string list \<Rightarrow> string list" where
  "findNewProps props [] newProps = newProps"
| "findNewProps props ((owner, propMap) # allProperties) newProps =
     findNewProps props allProperties (findNewProps_owner props propMap newProps)"

fun storeNewProps :: "host \<Rightarrow> string list \<Rightarrow> error option \<times> host" where
  "storeNewProps h [] = (None, h)"
| "storeNewProps h (prop # newProps) =
     (case Set_Add h prop of
        (Some err, h1) \<Rightarrow> (Some err, h1)
      | (None, h1) \<Rightarrow> storeNewProps h1 newProps)"

fun updateOwner ::
  "host \<Rightarrow> tx \<Rightarrow> string \<Rightarrow> (string \<times> string) list \<Rightarrow> error option \<times> tx \<times> host" where
  "updateOwner h transaction owner [] = (None, transaction, h)"
| "updateOwner h transaction owner ((k, val) # propMap) =
     (let encodedValue = (if \<not> rawUTF8 h then Encode h val else val) in
      case updateWithTransaction h transaction (owner @ fieldSep @ k) encodedValue of
        (Some err, tx1, h1) \<Rightarrow> (Some err, tx1, h1)
      | (None, tx1, h1) \<Rightarrow> updateOwner h1 tx1 owner propMap)"

fun updateOwners ::
  "host \<Rightarrow> tx \<Rightarrow> (string \<times> (string \<times> string) list) list \<Rightarrow> error option \<times> tx \<times> host" where
  "updateOwners h transaction [] = (None, transaction, h)"
| "updateOwners h transaction ((owner, propMap) # allProperties) =
     (case updateOwner h transaction owner propMap of
        (Some err, tx1, h1) \<Rightarrow> (Some err, tx1, h1)
      | (None, tx1, h1) \<Rightarrow> updateOwners h1 tx1 allProperties)"

definition SetLargeMap ::
  "host \<Rightarrow> (string \<times> (string \<times> string) list) list \<Rightarrow> error option \<times> host" where
  "SetLargeMap h allProperties =
     (case Set_All h of
        (Inl err, h1) \<Rightarrow> (Some err, h1)
      | (Inr props, h1) \<Rightarrow>
          (case storeNewProps h1 (findNewProps props allProperties []) of
             (Some err, h2) \<Rightarrow> (Some err, h2)
           | (None, h2) \<Rightarrow>
               (case BeginTx h2 of
                  (Inl err, h3) \<Rightarrow> (Some err, h3)
                | (Inr transaction, h3) \<Rightarrow>
                    (case updateOwners h3 transaction allProperties of
                       (Some err, tx4, h4) \<Rightarrow> (Some err, Rollback h4 tx4)
                     | (None, tx4, h4) \<Rightarrow> Commit h4 tx4))))"

section \<open>The invariant of the property set\<close>

text \<open>
  A stored composite key is \<open>owner + fieldSep + key\<close>. \<open>key_parts ck\<close> are the
  property keys that can be read out of the stored string \<open>ck\<close>: what follows an
  occurrence of the separator in it. For a key written with an owner and a property
  key that hold no separator there is one.

  \<open>property_keys_known\<close>: every stored composite key is some owner's, with a
  property key that is in the property set. \<open>every_split_known\<close> is the stronger
  reading: whichever way a stored composite key is read as \<open>owner + fieldSep + key\<close>,
  the key is in the property set.
\<close>

definition key_parts :: "string \<Rightarrow> string list" where
  "key_parts ck =
     map (\<lambda>i. drop (i + length fieldSep) ck)
       (filter (\<lambda>i. prefix fieldSep (drop i ck)) [0..<Suc (length ck)])"

definition property_keys_known :: "host \<Rightarrow> bool" where
  "property_keys_known h =
     list_all (\<lambda>ck. list_ex (\<lambda>k. k \<in> set (set_rows h)) (key_parts ck)) (map fst (kv_rows h))"

definition every_split_known :: "host \<Rightarrow> bool" where
  "every_split_known h =
     list_all (\<lambda>ck. list_all (\<lambda>k. k \<in> set (set_rows h)) (key_parts ck)) (map fst (kv_rows h))"

text \<open>No owner and no key of a bulk input holds the separator.\<close>

definition separator_free :: "(string \<times> (string \<times> string) list) list \<Rightarrow> bool" where
  "separator_free allProperties =
     list_all (\<lambda>(owner, propMap).
        \<not> Contains owner fieldSep \<and> list_all (\<lambda>(k, v). \<not> Contains k fieldSep) propMap)
       allProperties"

section \<open>Hosts for the examples\<close>

text \<open>A host with both tables empty, raw storage and no failure scheduled.\<close>

definition emptyHost :: host where
  "emptyHost =
     \<lparr>rawUTF8 = True, Encode = (\<lambda>s. s), Decode = (\<lambda>s. s), kv_rows = [], set_rows = [],
      faults = []\<rparr>"

section \<open>The spec's words for the enumeration of owners\<close>

text \<open>
  The spec: \<^verbatim>\<open>All\<close> "enumerates every composite key in data, splits each on the first
  occurrence of SEPARATOR, collects the distinct prefixes". \<open>first_occurrence s substr\<close>
  is the least position of \<open>s\<close> at which \<open>substr\<close> starts, \<open>owner_prefix ck\<close> is
  what stands before the first separator of \<open>ck\<close> (none when \<open>ck\<close> has no separator),
  and \<open>distinct_owner_prefixes\<close> collects them as a set.
\<close>

definition first_occurrence :: "string \<Rightarrow> string \<Rightarrow> nat option" where
  "first_occurrence s substr = List.find (\<lambda>i. prefix substr (drop i s)) [0..<Suc (length s)]"

definition owner_prefix :: "string \<Rightarrow> string option" where
  "owner_prefix ck = map_option (\<lambda>i. take i ck) (first_occurrence ck fieldSep)"

definition distinct_owner_prefixes :: "string list \<Rightarrow> string set" where
  "distinct_owner_prefixes cks = set (List.map_filter owner_prefix cks)"

text \<open>The three calls of the spec's example for \<^verbatim>\<open>Count\<close>, each on the host the
  one before left.\<close>

definition bobAndAlice :: "host \<Rightarrow> host" where
  "bobAndAlice h =
     snd (Set (snd (Set (snd (Set h ''bob'' ''password'' ''x'')) ''bob'' ''number'' ''42''))
            ''alice'' ''number'' ''42'')"

section \<open>Notions for the statements\<close>

text \<open>
  What \<^verbatim>\<open>setPropWithTransaction\<close> and \<^verbatim>\<open>SetLargeMap\<close> write for a value (the value,
  encoded unless \<open>rawUTF8\<close>), and the writes of one owner's pairs, in order.
\<close>

definition stored_value :: "host \<Rightarrow> string \<Rightarrow> string" where
  "stored_value h val = (if \<not> rawUTF8 h then Encode h val else val)"

definition writes_of :: "host \<Rightarrow> string \<Rightarrow> (string \<times> string) list \<Rightarrow> tx" where
  "writes_of h owner m = map (\<lambda>(k, v). (owner @ fieldSep @ k, stored_value h v)) m"

text \<open>The host settings no operation changes: the flag and the two codec functions.\<close>

definition same_settings :: "host \<Rightarrow> host \<Rightarrow> bool" where
  "same_settings h h' =
     (rawUTF8 h' = rawUTF8 h \<and> Encode h' = Encode h \<and> Decode h' = Decode h)"

text \<open>
  What a read gives for a stored string (the string, decoded unless \<open>rawUTF8\<close>), and
  an owner holding a key with a value that reads as non-empty.
\<close>

definition read_value :: "host \<Rightarrow> string \<Rightarrow> string" where
  "read_value h s = (if \<not> rawUTF8 h then Decode h s else s)"

definition holds_value :: "host \<Rightarrow> string \<Rightarrow> string \<Rightarrow> bool" where
  "holds_value h owner key =
     (case map_of (kv_rows h) (owner @ fieldSep @ key) of
        None \<Rightarrow> False
      | Some s \<Rightarrow> read_value h s \<noteq> [])"

text \<open>Bob with a password and an empty note, on tables that were empty.\<close>

definition bobWithEmptyNote :: host where
  "bobWithEmptyNote =
     snd (Set (snd (Set emptyHost ''bob'' ''note'' [])) ''bob'' ''password'' ''hunter1'')"

text \<open>
  For \<^verbatim>\<open>SetLargeMap\<close>: all the writes of the input, owner by owner, and all its keys.
\<close>

definition all_writes :: "host \<Rightarrow> (string \<times> (string \<times> string) list) list \<Rightarrow> tx" where
  "all_writes h allProperties = concat (map (\<lambda>(owner, propMap). writes_of h owner propMap) allProperties)"

definition all_keys :: "(string \<times> (string \<times> string) list) list \<Rightarrow> string list" where
  "all_keys allProperties = concat (map (\<lambda>(owner, propMap). map fst propMap) allProperties)"

text \<open>
  The schedule of failures, read from the front: \<open>go_through fs n\<close> says that the next
  \<open>n\<close> calls of the backing store go through, \<open>fails_at fs n e\<close> that the next \<open>n\<close>
  calls go through and the one after them fails with \<open>e\<close>.
\<close>

definition go_through :: "error option list \<Rightarrow> nat \<Rightarrow> bool" where
  "go_through fs n = list_all (\<lambda>f. f = None) (take n fs)"

definition fails_at :: "error option list \<Rightarrow> nat \<Rightarrow> error \<Rightarrow> bool" where
  "fails_at fs n e = (go_through fs n \<and> n < length fs \<and> fs ! n = Some e)"

text \<open>A host that encodes: values are stored reversed.\<close>

definition encodingHost :: host where
  "encodingHost =
     \<lparr>rawUTF8 = False, Encode = rev, Decode = rev, kv_rows = [], set_rows = [], faults = []\<rparr>"

section \<open>Properties\<close>

subsection \<open>The fault schedule\<close>

lemma next_fault_Nil: "faults h = [] \<Longrightarrow> next_fault h = (None, h)"
  by (simp add: next_fault_def)

lemma next_fault_Cons: "next_fault (h\<lparr>faults := f # fs\<rparr>) = (f, h\<lparr>faults := fs\<rparr>)"
  by (simp add: next_fault_def)

subsection \<open>Remove and Clear\<close>

text \<open>
  C10. \<^verbatim>\<open>Remove\<close> and \<^verbatim>\<open>Clear\<close> ignore a failure of the operation on the table of
  the property set. The error \<^verbatim>\<open>Remove\<close> returns is the wrapped error of dropping the
  data table, and \<open>nil\<close> when that succeeds; the error \<^verbatim>\<open>Clear\<close> returns is the one
  of clearing the data table. When the operation on the property set fails with \<open>e\<close>
  and the one on the data table goes through, both return \<open>nil\<close>.
\<close>

theorem Remove_Clear_report_only_data_errors:
  "fst (Remove h) = map_option CouldNotRemoveKv (fst (KeyValue_Remove (snd (Set_Remove h))))
   \<and> fst (Clear h) = fst (KeyValue_Clear (snd (Set_Clear h)))
   \<and> fst (Set_Remove (h\<lparr>faults := Some e # None # fs\<rparr>)) = Some e
   \<and> fst (Remove (h\<lparr>faults := Some e # None # fs\<rparr>)) = None
   \<and> fst (Set_Clear (h\<lparr>faults := Some e # None # fs\<rparr>)) = Some e
   \<and> fst (Clear (h\<lparr>faults := Some e # None # fs\<rparr>)) = None"
  by (simp add: Remove_def Clear_def Set_Remove_def Set_Clear_def KeyValue_Remove_def
      KeyValue_Clear_def next_fault_def split: prod.splits option.splits list.splits)

theorem Remove_Clear_report_only_data_errors_witness:
  "fst (Remove (emptyHost\<lparr>faults := [Some (BackingStoreError ''lost''), None]\<rparr>)) = None
   \<and> fst (Clear (emptyHost\<lparr>faults := [Some (BackingStoreError ''lost''), None]\<rparr>)) = None
   \<and> fst (Remove (emptyHost\<lparr>faults := [None, Some (BackingStoreError ''lost'')]\<rparr>))
       = Some (CouldNotRemoveKv (BackingStoreError ''lost''))
   \<and> fst (Clear (emptyHost\<lparr>faults := [None, Some (BackingStoreError ''lost'')]\<rparr>))
       = Some (BackingStoreError ''lost'')"
  using Remove_Clear_report_only_data_errors
    [of "emptyHost\<lparr>faults := [None, Some (BackingStoreError ''lost'')]\<rparr>"
        "BackingStoreError ''lost''" "[]"]
   Remove_Clear_report_only_data_errors [of "emptyHost" "BackingStoreError ''lost''" "[]"]
  by (simp add: emptyHost_def Set_Remove_def Set_Clear_def KeyValue_Remove_def
      KeyValue_Clear_def next_fault_def)

subsection \<open>Unfolding the model\<close>

lemmas prim_defs = KeyValue_Get_def KeyValue_Del_def KeyValue_All_def KeyValue_Clear_def
  KeyValue_Remove_def Set_Add_def Set_All_def Set_Clear_def Set_Remove_def BeginTx_def
  setWithTransaction_def updateWithTransaction_def Commit_def Rollback_def apply_writes_def
  next_fault_def

lemmas hm2_defs = setPropWithTransaction_def SetMap_def Set_def Get_def Has_def noResult_def
  hasS_def AllEncounteredKeys_def Keys_def All_def Count_def DelKey_def Del_def Remove_def
  Clear_def SetLargeMap_def

subsection \<open>Has\<close>

text \<open>
  C4, as stated, fails: \<^verbatim>\<open>Has\<close> also returns \<open>(false, nil)\<close> when the read
  succeeds with the empty string. After \<^verbatim>\<open>Set("bob", "note", "")\<close> on empty tables
  the read of the key succeeds with the empty value, and \<^verbatim>\<open>Has("bob", "note")\<close>
  is \<open>(false, nil)\<close>.
\<close>

theorem Has_empty_value_counterexample:
  "fst (Set emptyHost ''bob'' ''note'' []) = None
   \<and> fst (Get (snd (Set emptyHost ''bob'' ''note'' [])) ''bob'' ''note'') = Inr []
   \<and> fst (Has (snd (Set emptyHost ''bob'' ''note'' [])) ''bob'' ''note'') = (False, None)"
  by (simp add: emptyHost_def hm2_defs prim_defs fieldSep_def)

text \<open>
  C4, amended. \<^verbatim>\<open>Has(owner, key)\<close> returns \<open>(false, nil)\<close> exactly when the
  underlying read reports \<open>NotFound\<close> or returns the empty string; it returns
  \<open>(true, nil)\<close> exactly when the read returns a non-empty string; and it returns
  \<open>(false, err)\<close> exactly when the read fails with an error \<open>err\<close> other than
  \<open>NotFound\<close>. When the read itself does not fail, the result is read off the table:
  \<open>true\<close> exactly when a row for \<open>owner + fieldSep + key\<close> is stored whose
  (decoded) value is not empty.
\<close>

theorem Has_results:
  "(fst (Has h owner key) = (False, None))
      = (fst (KeyValue_Get h (owner @ fieldSep @ key)) = Inl NotFound
         \<or> fst (KeyValue_Get h (owner @ fieldSep @ key)) = Inr [])
   \<and> (fst (Has h owner key) = (True, None))
      = (\<exists>s. s \<noteq> [] \<and> fst (KeyValue_Get h (owner @ fieldSep @ key)) = Inr s)
   \<and> (err \<noteq> NotFound \<longrightarrow>
        (fst (Has h owner key) = (False, Some err))
          = (fst (KeyValue_Get h (owner @ fieldSep @ key)) = Inl err))
   \<and> (fst (next_fault h) = None \<longrightarrow>
        fst (Has h owner key)
          = (case map_of (kv_rows h) (owner @ fieldSep @ key) of
               None \<Rightarrow> (False, None)
             | Some s \<Rightarrow> ((if \<not> rawUTF8 h then Decode h s else s) \<noteq> [], None)))"
proof -
  have tbl: "fst (next_fault h) = None \<Longrightarrow>
        fst (Has h owner key)
          = (case map_of (kv_rows h) (owner @ fieldSep @ key) of
               None \<Rightarrow> (False, None)
             | Some s \<Rightarrow> ((if \<not> rawUTF8 h then Decode h s else s) \<noteq> [], None))"
    by (auto simp: Has_def noResult_def KeyValue_Get_def next_fault_def
        split: prod.splits sum.splits list.splits option.splits)
  show ?thesis
    using tbl by (auto simp: Has_def noResult_def split: prod.splits sum.splits)
qed

theorem Has_results_witness:
  "fst (Set emptyHost ''bob'' ''password'' ''hunter1'') = None
   \<and> fst (Has (snd (Set emptyHost ''bob'' ''password'' ''hunter1'')) ''bob'' ''password'')
       = (True, None)
   \<and> fst (Has (snd (Set emptyHost ''bob'' ''password'' ''hunter1'')) ''bob'' ''email'')
       = (False, None)
   \<and> fst (Has ((snd (Set emptyHost ''bob'' ''password'' ''hunter1''))
                 \<lparr>faults := [Some (BackingStoreError ''lost'')]\<rparr>) ''bob'' ''password'')
       = (False, Some (BackingStoreError ''lost''))"
  using Has_results [of "snd (Set emptyHost ''bob'' ''password'' ''hunter1'')" "''bob''"
      "''password''" "BackingStoreError ''lost''"]
    Has_results [of "(snd (Set emptyHost ''bob'' ''password'' ''hunter1''))
                 \<lparr>faults := [Some (BackingStoreError ''lost'')]\<rparr>" "''bob''"
      "''password''" "BackingStoreError ''lost''"]
  by (simp add: emptyHost_def hm2_defs prim_defs fieldSep_def)

subsection \<open>DelKey\<close>

lemma KeyValue_Del_frame: "set_rows (snd (KeyValue_Del h ck)) = set_rows h"
  by (simp add: KeyValue_Del_def next_fault_def split: list.splits option.splits)

lemma KeyValue_Del_gone:
  "fst (KeyValue_Del h ck) = None \<Longrightarrow> map_of (kv_rows (snd (KeyValue_Del h ck))) ck = None"
  by (simp add: KeyValue_Del_def next_fault_def delete_conv' split: list.splits option.splits)

text \<open>
  C8. \<^verbatim>\<open>DelKey\<close> never changes the property set, whatever it returns. After a
  \<^verbatim>\<open>DelKey(owner, key)\<close> that succeeds, \<^verbatim>\<open>Has(owner, key)\<close> returns \<open>false\<close>
  (with a \<open>nil\<close> error when its read does not fail), and \<^verbatim>\<open>AllEncounteredKeys\<close>,
  when its read does not fail, returns the property set as it was before the
  \<^verbatim>\<open>DelKey\<close>: every key that was in it is still there, held by an owner or not.
\<close>

theorem DelKey_then_Has:
  "set_rows (snd (DelKey h owner key)) = set_rows h
   \<and> (fst (DelKey h owner key) = None \<longrightarrow>
        fst (fst (Has (snd (DelKey h owner key)) owner key)) = False
        \<and> (fst (next_fault (snd (DelKey h owner key))) = None \<longrightarrow>
             fst (Has (snd (DelKey h owner key)) owner key) = (False, None)
             \<and> fst (AllEncounteredKeys (snd (DelKey h owner key))) = Inr (set_rows h)))"
proof -
  let ?h1 = "snd (DelKey h owner key)"
  have frame: "set_rows ?h1 = set_rows h"
    by (simp add: DelKey_def KeyValue_Del_frame)
  have false: "fst (fst (Has h2 owner key)) = False"
    if "map_of (kv_rows h2) (owner @ fieldSep @ key) = None" for h2
    using that by (simp add: Has_def KeyValue_Get_def next_fault_def noResult_def
        split: list.splits option.splits)
  have nil: "fst (Has h2 owner key) = (False, None)"
    if "map_of (kv_rows h2) (owner @ fieldSep @ key) = None" "fst (next_fault h2) = None" for h2
    using that by (auto simp: Has_def KeyValue_Get_def noResult_def next_fault_def
        split: list.splits option.splits)
  have keys: "fst (AllEncounteredKeys h2) = Inr (set_rows h2)"
    if "fst (next_fault h2) = None" for h2
    using that by (auto simp: AllEncounteredKeys_def Set_All_def next_fault_def
        split: prod.splits option.splits list.splits)
  have gone: "fst (DelKey h owner key) = None
    \<Longrightarrow> map_of (kv_rows ?h1) (owner @ fieldSep @ key) = None"
    by (simp add: DelKey_def KeyValue_Del_gone)
  show ?thesis
    using frame false [of ?h1] nil [of ?h1] keys [of ?h1] gone by simp
qed

theorem DelKey_then_Has_witness:
  "fst (Set emptyHost ''bob'' ''confirmed'' ''true'') = None
   \<and> fst (Has (snd (Set emptyHost ''bob'' ''confirmed'' ''true'')) ''bob'' ''confirmed'')
       = (True, None)
   \<and> fst (DelKey (snd (Set emptyHost ''bob'' ''confirmed'' ''true'')) ''bob'' ''confirmed'')
       = None
   \<and> fst (Has (snd (DelKey (snd (Set emptyHost ''bob'' ''confirmed'' ''true''))
                 ''bob'' ''confirmed'')) ''bob'' ''confirmed'') = (False, None)
   \<and> fst (AllEncounteredKeys
         (snd (DelKey (snd (Set emptyHost ''bob'' ''confirmed'' ''true'')) ''bob'' ''confirmed'')))
       = Inr [''confirmed'']
   \<and> kv_rows (snd (DelKey (snd (Set emptyHost ''bob'' ''confirmed'' ''true''))
                 ''bob'' ''confirmed'')) = []"
  using DelKey_then_Has [of "snd (Set emptyHost ''bob'' ''confirmed'' ''true'')" "''bob''"
      "''confirmed''"]
  by (simp add: emptyHost_def hm2_defs prim_defs fieldSep_def)

subsection \<open>All and Count\<close>

lemma find_map_upt: "List.find P (map f xs) = map_option f (List.find (\<lambda>x. P (f x)) xs)"
  by (induction xs) auto

lemma first_occurrence_Nil: "first_occurrence [] substr = (if substr = [] then Some 0 else None)"
  by (simp add: first_occurrence_def)

lemma first_occurrence_Cons:
  "first_occurrence (c # cs) substr =
     (if prefix substr (c # cs) then Some 0 else map_option Suc (first_occurrence cs substr))"
proof -
  have "[0..<Suc (Suc (length cs))] = 0 # [Suc 0..<Suc (Suc (length cs))]"
    by (rule upt_conv_Cons) simp
  also have "[Suc 0..<Suc (Suc (length cs))] = map Suc [0..<Suc (length cs)]"
    by (rule map_Suc_upt [symmetric])
  finally have "[0..<Suc (Suc (length cs))] = 0 # map Suc [0..<Suc (length cs)]" .
  then show ?thesis
    by (simp add: first_occurrence_def find_map_upt del: upt_Suc)
qed

lemma Index_first_occurrence:
  "Index s substr = (case first_occurrence s substr of None \<Rightarrow> - 1 | Some i \<Rightarrow> int i)"
  by (induction s) (auto simp: first_occurrence_Nil first_occurrence_Cons Let_def split: option.splits)

lemma owner_prefix_Index:
  "owner_prefix ck =
     (if Index ck fieldSep \<noteq> - 1 then Some (take (nat (Index ck fieldSep)) ck) else None)"
  by (auto simp: owner_prefix_def Index_first_occurrence split: option.splits)

lemma set_All_loop:
  "set (All_loop cks foundOwners) = set foundOwners \<union> distinct_owner_prefixes cks"
  by (induction cks arbitrary: foundOwners)
     (auto simp: distinct_owner_prefixes_def owner_prefix_Index Let_def)

lemma distinct_All_loop:
  "distinct foundOwners \<Longrightarrow> distinct (All_loop cks foundOwners)"
  by (induction cks arbitrary: foundOwners) (auto simp: Let_def)

lemma All_ok:
  "fst (next_fault h) = None \<Longrightarrow> fst (All h) = (All_loop (map fst (kv_rows h)) [], None)"
  by (auto simp: All_def KeyValue_All_def next_fault_def split: list.splits option.splits)

lemma All_fails:
  "fst (next_fault h) = Some e \<Longrightarrow> fst (All h) = ([], Some e)"
  by (auto simp: All_def KeyValue_All_def next_fault_def split: list.splits option.splits)

text \<open>
  C6. When the enumeration of the data table does not fail, \<^verbatim>\<open>All\<close> returns, with a
  \<open>nil\<close> error, a list without duplicates whose elements are exactly the prefixes
  that stand before the first separator of the composite keys stored in the data table
  (a stored key without a separator gives none). When the enumeration fails with \<open>e\<close>,
  it returns the empty list and \<open>e\<close>.
\<close>

theorem All_distinct_owner_prefixes:
  "(fst (next_fault h) = None \<longrightarrow>
      snd (fst (All h)) = None
      \<and> set (fst (fst (All h))) = distinct_owner_prefixes (map fst (kv_rows h))
      \<and> distinct (fst (fst (All h))))
   \<and> (fst (next_fault h) = Some e \<longrightarrow> fst (All h) = ([], Some e))"
  by (simp add: All_ok All_fails set_All_loop distinct_All_loop)

theorem All_distinct_owner_prefixes_witness:
  "fst (All (bobAndAlice emptyHost)) = ([''bob'', ''alice''], None)
   \<and> distinct_owner_prefixes (map fst (kv_rows (bobAndAlice emptyHost))) = {''bob'', ''alice''}"
  using All_distinct_owner_prefixes [of "bobAndAlice emptyHost"]
  by (simp add: emptyHost_def bobAndAlice_def hm2_defs prim_defs fieldSep_def
      distinct_owner_prefixes_def owner_prefix_def first_occurrence_Cons first_occurrence_Nil
      insert_commute)

lemma Count_All: "fst (Count h) = (int (length (fst (fst (All h)))), snd (fst (All h)))"
  by (auto simp: Count_def All_def split: prod.splits sum.splits option.splits)

lemma bobAndAlice_rows:
  "kv_rows h = [] \<Longrightarrow> faults h = [] \<Longrightarrow>
   map fst (kv_rows (bobAndAlice h)) =
     [''bob'' @ fieldSep @ ''password'', ''bob'' @ fieldSep @ ''number'', ''alice'' @ fieldSep @ ''number'']
   \<and> faults (bobAndAlice h) = []"
  by (simp add: bobAndAlice_def hm2_defs prim_defs fieldSep_def)

text \<open>
  C5. \<^verbatim>\<open>Count\<close> returns the length of what \<^verbatim>\<open>All\<close> returns, with its error; when
  the enumeration does not fail this is the number of distinct owners, the prefixes
  before the first separator of the stored composite keys, and not the number of rows.
  After the three calls of the example on a map without rows, three rows are stored and
  \<^verbatim>\<open>Count\<close> returns 2.
\<close>

theorem Count_is_number_of_owners:
  "fst (Count h) = (int (length (fst (fst (All h)))), snd (fst (All h)))
   \<and> (fst (next_fault h) = None \<longrightarrow>
        fst (Count h) = (int (card (distinct_owner_prefixes (map fst (kv_rows h)))), None))
   \<and> (kv_rows h = [] \<and> faults h = [] \<longrightarrow>
        length (kv_rows (bobAndAlice h)) = 3 \<and> fst (Count (bobAndAlice h)) = (2, None))"
proof -
  have general: "fst (Count h) = (int (length (fst (fst (All h)))), snd (fst (All h)))" for h
    by (rule Count_All)
  have owners: "fst (Count h) = (int (card (distinct_owner_prefixes (map fst (kv_rows h)))), None)"
    if "fst (next_fault h) = None" for h
  proof -
    have "card (distinct_owner_prefixes (map fst (kv_rows h)))
        = length (All_loop (map fst (kv_rows h)) [])"
      using set_All_loop [of "map fst (kv_rows h)" "[]"]
        distinct_card [OF distinct_All_loop [of "[]" "map fst (kv_rows h)"]]
      by simp
    then show ?thesis
      using that by (simp add: Count_All All_ok)
  qed
  have example: "length (kv_rows (bobAndAlice h)) = 3 \<and> fst (Count (bobAndAlice h)) = (2, None)"
    if "kv_rows h = []" "faults h = []"
  proof -
    have rows: "map fst (kv_rows (bobAndAlice h)) =
        [''bob'' @ fieldSep @ ''password'', ''bob'' @ fieldSep @ ''number'',
         ''alice'' @ fieldSep @ ''number'']"
      and ok: "faults (bobAndAlice h) = []"
      using bobAndAlice_rows [OF that] by simp_all
    have "length (map fst (kv_rows (bobAndAlice h))) = 3"
      by (simp only: rows) simp
    moreover have "fst (Count (bobAndAlice h)) = (2, None)"
      using ok by (simp add: Count_All All_ok next_fault_Nil rows fieldSep_def)
    ultimately show ?thesis by simp
  qed
  show ?thesis
    using general owners example by blast
qed

theorem Count_is_number_of_owners_witness:
  "length (kv_rows (bobAndAlice emptyHost)) = 3 \<and> fst (Count (bobAndAlice emptyHost)) = (2, None)"
  using Count_is_number_of_owners [of emptyHost]
  by (simp add: emptyHost_def)

subsection \<open>What the primitives and the loop of SetMap do\<close>

lemma next_fault_alt:
  "next_fault h = (case faults h of [] \<Rightarrow> None | f # fs \<Rightarrow> f, h\<lparr>faults := tl (faults h)\<rparr>)"
  by (cases "faults h") (simp_all add: next_fault_def)

lemma same_settings_refl [simp]: "same_settings h h"
  by (simp add: same_settings_def)

lemma same_settings_trans: "same_settings h h1 \<Longrightarrow> same_settings h1 h2 \<Longrightarrow> same_settings h h2"
  by (simp add: same_settings_def)

lemma stored_value_same: "same_settings h h' \<Longrightarrow> stored_value h' v = stored_value h v"
  by (simp add: same_settings_def stored_value_def)

lemma writes_of_same: "same_settings h h' \<Longrightarrow> writes_of h' owner m = writes_of h owner m"
  by (simp add: writes_of_def stored_value_same)

lemma set_tl_subset: "set (tl xs) \<subseteq> set xs"
  by (cases xs) auto

lemma Set_Add_result:
  assumes "Set_Add h v = (r, h')"
  shows "same_settings h h'" and "kv_rows h' = kv_rows h"
    and "set (faults h') \<subseteq> set (faults h)"
    and "set (set_rows h) \<subseteq> set (set_rows h')"
    and "r = None \<Longrightarrow> set (set_rows h') = insert v (set (set_rows h))"
    and "r = Some e \<Longrightarrow> Some e \<in> set (faults h)"
    and "faults h = [] \<Longrightarrow> r = None \<and> faults h' = []"
  using assms set_tl_subset [of "faults h"]
  by (auto simp: Set_Add_def next_fault_alt same_settings_def
      split: option.splits list.splits if_splits)

lemma setWithTransaction_result:
  assumes "setWithTransaction h transaction ck s = (r, tx', h')"
  shows "same_settings h h'" and "kv_rows h' = kv_rows h" and "set_rows h' = set_rows h"
    and "set (faults h') \<subseteq> set (faults h)"
    and "r = None \<Longrightarrow> tx' = transaction @ [(ck, s)]"
    and "r = Some e \<Longrightarrow> Some e \<in> set (faults h)"
    and "faults h = [] \<Longrightarrow> r = None \<and> faults h' = []"
    and "r \<noteq> None \<Longrightarrow> tx' = transaction"
  using assms set_tl_subset [of "faults h"]
  by (auto simp: setWithTransaction_def next_fault_alt same_settings_def
      split: option.splits list.splits if_splits)

lemma setPropWithTransaction_result:
  assumes "setPropWithTransaction h transaction owner k v chk = (r, tx', h')"
  shows "same_settings h h'" and "kv_rows h' = kv_rows h"
    and "set (faults h') \<subseteq> set (faults h)"
    and "set (set_rows h) \<subseteq> set (set_rows h')"
    and "r = None \<Longrightarrow> tx' = transaction @ [(owner @ fieldSep @ k, stored_value h v)]
           \<and> set (set_rows h') = insert k (set (set_rows h))
           \<and> (chk \<longrightarrow> \<not> Contains owner fieldSep \<and> \<not> Contains k fieldSep)"
    and "r = Some e \<Longrightarrow> Some e \<in> set (faults h)
           \<or> chk \<and> Contains owner fieldSep \<and> e = Errorf (''owner can not contain '' @ fieldSep)
           \<or> chk \<and> \<not> Contains owner fieldSep \<and> Contains k fieldSep
              \<and> e = Errorf (''key can not contain '' @ fieldSep)"
    and "chk \<Longrightarrow> Contains owner fieldSep \<or> Contains k fieldSep \<Longrightarrow> r \<noteq> None"
    and "faults h = [] \<Longrightarrow> faults h' = []"
    and "r \<noteq> None \<Longrightarrow> tx' = transaction"
proof -
  show "chk \<Longrightarrow> Contains owner fieldSep \<or> Contains k fieldSep \<Longrightarrow> r \<noteq> None"
    using assms by (auto simp: setPropWithTransaction_def split: if_splits)
  consider (ow) "chk" "Contains owner fieldSep"
    | (ke) "chk" "\<not> Contains owner fieldSep" "Contains k fieldSep"
    | (go) "\<not> (chk \<and> Contains owner fieldSep)" "\<not> (chk \<and> Contains k fieldSep)"
    by blast
  then have "same_settings h h' \<and> kv_rows h' = kv_rows h
    \<and> set (faults h') \<subseteq> set (faults h) \<and> set (set_rows h) \<subseteq> set (set_rows h')
    \<and> (r = None \<longrightarrow> tx' = transaction @ [(owner @ fieldSep @ k, stored_value h v)]
           \<and> set (set_rows h') = insert k (set (set_rows h))
           \<and> (chk \<longrightarrow> \<not> Contains owner fieldSep \<and> \<not> Contains k fieldSep))
    \<and> (r = Some e \<longrightarrow> Some e \<in> set (faults h)
           \<or> chk \<and> Contains owner fieldSep \<and> e = Errorf (''owner can not contain '' @ fieldSep)
           \<or> chk \<and> \<not> Contains owner fieldSep \<and> Contains k fieldSep
              \<and> e = Errorf (''key can not contain '' @ fieldSep))
    \<and> (faults h = [] \<longrightarrow> faults h' = [])
    \<and> (r \<noteq> None \<longrightarrow> tx' = transaction)"
  proof cases
    case ow
    then show ?thesis using assms by (auto simp: setPropWithTransaction_def)
  next
    case ke
    then show ?thesis using assms by (auto simp: setPropWithTransaction_def)
  next
    case go
    obtain r1 h1 where add: "Set_Add h k = (r1, h1)" by (cases "Set_Add h k")
    show ?thesis
    proof (cases r1)
      case (Some e1)
      with go add assms have "r = Some e1" "h' = h1" "tx' = transaction"
        by (auto simp: setPropWithTransaction_def)
      then show ?thesis
        using Set_Add_result [OF add] Some by auto
    next
      case None
      with go add assms have sw: "setWithTransaction h1 transaction (owner @ fieldSep @ k)
          (stored_value h1 v) = (r, tx', h')"
        by (auto simp: setPropWithTransaction_def stored_value_def Let_def)
      have sv: "stored_value h1 v = stored_value h v"
        using Set_Add_result(1) [OF add] by (rule stored_value_same)
      show ?thesis
        using Set_Add_result [OF add] setWithTransaction_result [OF sw] None go sv
        by (auto simp: same_settings_def)
    qed
  qed
  then show "same_settings h h'" "kv_rows h' = kv_rows h"
    "set (faults h') \<subseteq> set (faults h)" "set (set_rows h) \<subseteq> set (set_rows h')"
    "r = None \<Longrightarrow> tx' = transaction @ [(owner @ fieldSep @ k, stored_value h v)]
           \<and> set (set_rows h') = insert k (set (set_rows h))
           \<and> (chk \<longrightarrow> \<not> Contains owner fieldSep \<and> \<not> Contains k fieldSep)"
    "r = Some e \<Longrightarrow> Some e \<in> set (faults h)
           \<or> chk \<and> Contains owner fieldSep \<and> e = Errorf (''owner can not contain '' @ fieldSep)
           \<or> chk \<and> \<not> Contains owner fieldSep \<and> Contains k fieldSep
              \<and> e = Errorf (''key can not contain '' @ fieldSep)"
    "faults h = [] \<Longrightarrow> faults h' = []"
    "r \<noteq> None \<Longrightarrow> tx' = transaction"
    by blast+
qed

lemma writes_of_Nil [simp]: "writes_of h owner [] = []"
  by (simp add: writes_of_def)

lemma writes_of_Cons:
  "writes_of h owner ((k, v) # m) = (owner @ fieldSep @ k, stored_value h v) # writes_of h owner m"
  by (simp add: writes_of_def)

lemma writes_of_append [simp]:
  "writes_of h owner (m1 @ m2) = writes_of h owner m1 @ writes_of h owner m2"
  by (simp add: writes_of_def)


lemma SetMap_loop_Cons_cases:
  assumes "SetMap_loop h transaction allProperties owner ((k, v) # m) = (r, tx', h')"
  obtains
    (stopped) e where "r = Some e" "tx' = transaction" "same_settings h h'"
      "kv_rows h' = kv_rows h" "set (faults h') \<subseteq> set (faults h)"
      "set (set_rows h) \<subseteq> set (set_rows h')" "faults h \<noteq> [] \<or> faults h' = []"
      "Some e \<in> set (faults h)
       \<or> Contains owner fieldSep \<and> e = Errorf (''owner can not contain '' @ fieldSep)
       \<or> \<not> Contains owner fieldSep \<and> Contains k fieldSep
          \<and> e = Errorf (''key can not contain '' @ fieldSep)"
  | (add_failed) e where "r = Some e"
      "tx' = transaction @ [(owner @ fieldSep @ k, stored_value h v)]" "same_settings h h'"
      "kv_rows h' = kv_rows h" "set (faults h') \<subseteq> set (faults h)"
      "set (set_rows h') = insert k (set (set_rows h))"
      "Some e \<in> set (faults h)" "\<not> Contains owner fieldSep" "\<not> Contains k fieldSep"
  | (continue) hx where
      "SetMap_loop hx (transaction @ [(owner @ fieldSep @ k, stored_value h v)])
         allProperties owner m = (r, tx', h')"
      "same_settings h hx" "kv_rows hx = kv_rows h" "set (faults hx) \<subseteq> set (faults h)"
      "set (set_rows hx) = insert k (set (set_rows h))" "faults h \<noteq> [] \<or> faults hx = []"
      "\<not> Contains owner fieldSep" "\<not> Contains k fieldSep"
proof -
  obtain r1 tx1 h1 where sp: "setPropWithTransaction h transaction owner k v True = (r1, tx1, h1)"
    by (metis prod_cases3)
  note p = setPropWithTransaction_result [OF sp]
  show thesis
  proof (cases r1)
    case (Some e1)
    with assms sp have res: "r = Some e1" "tx' = tx1" "h' = h1"
      by auto
    have "tx1 = transaction" using p(9) Some by simp
    moreover have "faults h \<noteq> [] \<or> faults h1 = []" using p(8) by blast
    moreover have "Some e1 \<in> set (faults h)
       \<or> Contains owner fieldSep \<and> e1 = Errorf (''owner can not contain '' @ fieldSep)
       \<or> \<not> Contains owner fieldSep \<and> Contains k fieldSep
          \<and> e1 = Errorf (''key can not contain '' @ fieldSep)"
      using p(6) [OF Some] by blast
    ultimately show ?thesis
      using res p(1-4) by (intro stopped [of e1]) simp_all
  next
    case None
    note ok = p(5) [OF None]
    have tx1: "tx1 = transaction @ [(owner @ fieldSep @ k, stored_value h v)]"
      and rows1: "set (set_rows h1) = insert k (set (set_rows h))"
      and valid: "\<not> Contains owner fieldSep" "\<not> Contains k fieldSep"
      using ok by simp_all
    have f1: "faults h \<noteq> [] \<or> faults h1 = []" using p(8) by blast
    show ?thesis
    proof (cases "hasS allProperties k")
      case True
      with assms sp None have "SetMap_loop h1 tx1 allProperties owner m = (r, tx', h')"
        by simp
      then show ?thesis
        using tx1 rows1 valid p(1-3) f1 by (intro continue [of h1]) simp_all
    next
      case False
      obtain r2 h2 where add: "Set_Add h1 k = (r2, h2)" by (cases "Set_Add h1 k")
      note q = Set_Add_result [OF add]
      have same: "same_settings h h2" using p(1) q(1) by (rule same_settings_trans)
      have rows: "kv_rows h2 = kv_rows h" using p(2) q(2) by simp
      have flt: "set (faults h2) \<subseteq> set (faults h)" using p(3) q(3) by blast
      have f2: "faults h \<noteq> [] \<or> faults h2 = []" using f1 q(7) by blast
      have props: "set (set_rows h2) = insert k (set (set_rows h))"
      proof (cases r2)
        case None
        then show ?thesis using q(5) rows1 by auto
      next
        case (Some e2)
        then have "set_rows h2 = set_rows h1"
          using add by (auto simp: Set_Add_def next_fault_alt split: option.splits list.splits)
        then show ?thesis using rows1 by simp
      qed
      show ?thesis
      proof (cases r2)
        case None
        with assms sp \<open>r1 = None\<close> False add
        have "SetMap_loop h2 tx1 allProperties owner m = (r, tx', h')"
          by simp
        then show ?thesis
          using tx1 props valid same rows flt f2 by (intro continue [of h2]) simp_all
      next
        case (Some e2)
        with assms sp \<open>r1 = None\<close> False add
        have res: "r = Some e2" "tx' = tx1" "h' = h2"
          by simp_all
        have "Some e2 \<in> set (faults h)" using q(6) [OF Some] p(3) by blast
        then show ?thesis
          using res tx1 props valid same rows flt by (intro add_failed [of e2]) simp_all
      qed
    qed
  qed
qed

lemma SetMap_loop_frame:
  "SetMap_loop h transaction allProperties owner m = (r, tx', h') \<Longrightarrow>
     same_settings h h' \<and> kv_rows h' = kv_rows h \<and> set (faults h') \<subseteq> set (faults h)
     \<and> set (set_rows h) \<subseteq> set (set_rows h') \<and> (faults h \<noteq> [] \<or> faults h' = [])"
proof (induction m arbitrary: h transaction)
  case Nil
  then show ?case by simp
next
  case (Cons a m)
  obtain k v where a: "a = (k, v)" by (cases a)
  from Cons.prems [unfolded a] show ?case
  proof (cases rule: SetMap_loop_Cons_cases)
    case (stopped e)
    then show ?thesis by simp
  next
    case (add_failed e)
    then show ?thesis by auto
  next
    case (continue hx)
    from Cons.IH [OF continue(1)] continue(2-6) show ?thesis
      by (auto simp: same_settings_def)
  qed
qed

lemma SetMap_loop_pending:
  "SetMap_loop h transaction allProperties owner m = (r, tx', h') \<Longrightarrow>
     \<exists>m1 m2. m = m1 @ m2 \<and> tx' = transaction @ writes_of h owner m1
       \<and> fst ` set m1 \<subseteq> set (set_rows h') \<and> (r = None \<longrightarrow> m2 = [])"
proof (induction m arbitrary: h transaction)
  case Nil
  then show ?case by simp
next
  case (Cons a m)
  obtain k v where a: "a = (k, v)" by (cases a)
  from Cons.prems [unfolded a] show ?case
  proof (cases rule: SetMap_loop_Cons_cases)
    case (stopped e)
    then have "a # m = [] @ (a # m) \<and> tx' = transaction @ writes_of h owner []
        \<and> fst ` set [] \<subseteq> set (set_rows h') \<and> (r = None \<longrightarrow> a # m = [])"
      by simp
    then show ?thesis by blast
  next
    case (add_failed e)
    then have "a # m = [a] @ m \<and> tx' = transaction @ writes_of h owner [a]
        \<and> fst ` set [a] \<subseteq> set (set_rows h') \<and> (r = None \<longrightarrow> m = [])"
      by (simp add: a writes_of_Cons)
    then show ?thesis by blast
  next
    case (continue hx)
    from Cons.IH [OF continue(1)] obtain m1 m2 where m12: "m = m1 @ m2"
      "tx' = (transaction @ [(owner @ fieldSep @ k, stored_value h v)]) @ writes_of hx owner m1"
      "fst ` set m1 \<subseteq> set (set_rows h')" "r = None \<longrightarrow> m2 = []"
      by blast
    have "k \<in> set (set_rows h')"
      using SetMap_loop_frame [OF continue(1)] continue(5) by auto
    then have "a # m = (a # m1) @ m2 \<and> tx' = transaction @ writes_of h owner (a # m1)
        \<and> fst ` set (a # m1) \<subseteq> set (set_rows h') \<and> (r = None \<longrightarrow> m2 = [])"
      using m12 writes_of_same [OF continue(2)] by (simp add: a writes_of_Cons)
    then show ?thesis by blast
  qed
qed

lemma SetMap_loop_success:
  "SetMap_loop h transaction allProperties owner m = (None, tx', h') \<Longrightarrow>
     tx' = transaction @ writes_of h owner m
     \<and> set (set_rows h') = set (set_rows h) \<union> fst ` set m
     \<and> (m = [] \<or> \<not> Contains owner fieldSep)
     \<and> list_all (\<lambda>(k, v). \<not> Contains k fieldSep) m"
proof (induction m arbitrary: h transaction)
  case Nil
  then show ?case by simp
next
  case (Cons a m)
  obtain k v where a: "a = (k, v)" by (cases a)
  from Cons.prems [unfolded a] show ?case
  proof (cases rule: SetMap_loop_Cons_cases)
    case (stopped e)
    then show ?thesis by simp
  next
    case (add_failed e)
    then show ?thesis by simp
  next
    case (continue hx)
    from Cons.IH [OF continue(1)] continue(5,7,8) writes_of_same [OF continue(2)]
    show ?thesis
      by (auto simp: a writes_of_Cons)
  qed
qed

lemma SetMap_loop_error:
  "SetMap_loop h transaction allProperties owner m = (Some e, tx', h') \<Longrightarrow>
     Some e \<in> set (faults h)
     \<or> Contains owner fieldSep \<and> e = Errorf (''owner can not contain '' @ fieldSep)
     \<or> \<not> Contains owner fieldSep \<and> \<not> list_all (\<lambda>(k, v). \<not> Contains k fieldSep) m
        \<and> e = Errorf (''key can not contain '' @ fieldSep)"
proof (induction m arbitrary: h transaction)
  case Nil
  then show ?case by simp
next
  case (Cons a m)
  obtain k v where a: "a = (k, v)" by (cases a)
  from Cons.prems [unfolded a] show ?case
  proof (cases rule: SetMap_loop_Cons_cases)
    case (stopped e')
    then show ?thesis by (auto simp: a)
  next
    case (add_failed e')
    then show ?thesis by simp
  next
    case (continue hx)
    from Cons.IH [OF continue(1)] continue(4) show ?thesis
      by (auto simp: a)
  qed
qed

lemma SetMap_loop_must_stop:
  "SetMap_loop h transaction allProperties owner m = (r, tx', h') \<Longrightarrow>
     m \<noteq> [] \<and> Contains owner fieldSep \<or> \<not> list_all (\<lambda>(k, v). \<not> Contains k fieldSep) m \<Longrightarrow>
     r \<noteq> None"
  using SetMap_loop_success [of h transaction allProperties owner m tx' h'] by auto

lemma Set_All_result:
  assumes "Set_All h = (r, h')"
  shows "same_settings h h'" and "kv_rows h' = kv_rows h" and "set_rows h' = set_rows h"
    and "set (faults h') \<subseteq> set (faults h)" and "faults h \<noteq> [] \<or> faults h' = []"
    and "r = Inl e \<Longrightarrow> Some e \<in> set (faults h)"
    and "r = Inr ps \<Longrightarrow> ps = set_rows h"
    and "faults h = [] \<Longrightarrow> r = Inr (set_rows h)"
  using assms set_tl_subset [of "faults h"]
  by (auto simp: Set_All_def next_fault_alt same_settings_def
      split: option.splits list.splits if_splits)

lemma BeginTx_result:
  assumes "BeginTx h = (r, h')"
  shows "same_settings h h'" and "kv_rows h' = kv_rows h" and "set_rows h' = set_rows h"
    and "set (faults h') \<subseteq> set (faults h)" and "faults h \<noteq> [] \<or> faults h' = []"
    and "r = Inl e \<Longrightarrow> Some e \<in> set (faults h)"
    and "r = Inr transaction \<Longrightarrow> transaction = []"
    and "faults h = [] \<Longrightarrow> r = Inr []"
  using assms set_tl_subset [of "faults h"]
  by (auto simp: BeginTx_def next_fault_alt same_settings_def
      split: option.splits list.splits if_splits)

lemma Commit_result:
  assumes "Commit h transaction = (r, h')"
  shows "same_settings h h'" and "set_rows h' = set_rows h"
    and "set (faults h') \<subseteq> set (faults h)" and "faults h \<noteq> [] \<or> faults h' = []"
    and "r = Some e \<Longrightarrow> Some e \<in> set (faults h) \<and> kv_rows h' = kv_rows h"
    and "r = None \<Longrightarrow> kv_rows h' = apply_writes (kv_rows h) transaction"
    and "faults h = [] \<Longrightarrow> r = None"
  using assms set_tl_subset [of "faults h"]
  by (auto simp: Commit_def next_fault_alt same_settings_def
      split: option.splits list.splits if_splits)

lemma SetMap_cases:
  assumes "SetMap h owner m = (r, h')"
  obtains
    (not_begun) e where "r = Some e" "Some e \<in> set (faults h)" "same_settings h h'"
      "kv_rows h' = kv_rows h" "set_rows h' = set_rows h" "set (faults h') \<subseteq> set (faults h)"
  | (rolled_back) e h2 tx3 where "r = Some e"
      "SetMap_loop h2 [] (set_rows h) owner m = (Some e, tx3, h')"
      "same_settings h h2" "kv_rows h2 = kv_rows h" "set_rows h2 = set_rows h"
      "set (faults h2) \<subseteq> set (faults h)" "faults h \<noteq> [] \<or> faults h2 = []"
  | (at_commit) h2 tx3 h3 where
      "SetMap_loop h2 [] (set_rows h) owner m = (None, tx3, h3)" "Commit h3 tx3 = (r, h')"
      "same_settings h h2" "kv_rows h2 = kv_rows h" "set_rows h2 = set_rows h"
      "set (faults h2) \<subseteq> set (faults h)" "faults h \<noteq> [] \<or> faults h2 = []"
proof -
  obtain r1 h1 where all: "Set_All h = (r1, h1)" by (cases "Set_All h")
  note p = Set_All_result [OF all]
  show thesis
  proof (cases r1)
    case (Inl e)
    with assms all have "r = Some e" "h' = h1" by (simp_all add: SetMap_def)
    then show ?thesis using p(1-4) p(6) [OF Inl] by (intro not_begun [of e]) simp_all
  next
    case (Inr allProperties)
    then have props: "allProperties = set_rows h" using p(7) by simp
    obtain r2 h2 where beg: "BeginTx h1 = (r2, h2)" by (cases "BeginTx h1")
    note q = BeginTx_result [OF beg]
    have same: "same_settings h h2" using p(1) q(1) by (rule same_settings_trans)
    have frame: "kv_rows h2 = kv_rows h" "set_rows h2 = set_rows h"
      "set (faults h2) \<subseteq> set (faults h)" "faults h \<noteq> [] \<or> faults h2 = []"
      using p(2-5) q(2-5) by auto
    show ?thesis
    proof (cases r2)
      case (Inl e)
      with assms all beg \<open>r1 = Inr allProperties\<close> have "r = Some e" "h' = h2"
        by (simp_all add: SetMap_def)
      moreover have "Some e \<in> set (faults h)" using q(6) [OF Inl] p(4) by blast
      ultimately show ?thesis using same frame by (intro not_begun [of e]) simp_all
    next
      case (Inr transaction)
      then have tx: "transaction = []" using q(7) by simp
      obtain r3 tx3 h3 where loop: "SetMap_loop h2 [] (set_rows h) owner m = (r3, tx3, h3)"
        by (metis prod_cases3)
      show ?thesis
      proof (cases r3)
        case None
        with assms all beg \<open>r1 = Inr allProperties\<close> \<open>r2 = Inr transaction\<close> props tx loop
        have "Commit h3 tx3 = (r, h')" by (simp add: SetMap_def)
        then show ?thesis
          using loop None same frame by (intro at_commit [of h2 tx3 h3]) simp_all
      next
        case (Some e)
        with assms all beg \<open>r1 = Inr allProperties\<close> \<open>r2 = Inr transaction\<close> props tx loop
        have "r = Some e" "h' = h3" by (simp_all add: SetMap_def Rollback_def)
        then show ?thesis
          using loop Some same frame by (intro rolled_back [of e h2 tx3]) simp_all
      qed
    qed
  qed
qed

lemma SetMap_failure:
  assumes "SetMap h owner m = (Some e, h')"
  shows "kv_rows h' = kv_rows h"
    and "Some e \<in> set (faults h)
     \<or> Contains owner fieldSep \<and> e = Errorf (''owner can not contain '' @ fieldSep)
     \<or> \<not> Contains owner fieldSep \<and> \<not> list_all (\<lambda>(k, v). \<not> Contains k fieldSep) m
        \<and> e = Errorf (''key can not contain '' @ fieldSep)"
proof -
  from assms have "kv_rows h' = kv_rows h \<and> (Some e \<in> set (faults h)
     \<or> Contains owner fieldSep \<and> e = Errorf (''owner can not contain '' @ fieldSep)
     \<or> \<not> Contains owner fieldSep \<and> \<not> list_all (\<lambda>(k, v). \<not> Contains k fieldSep) m
        \<and> e = Errorf (''key can not contain '' @ fieldSep))"
  proof (cases rule: SetMap_cases)
    case (not_begun e')
    then show ?thesis by simp
  next
    case (rolled_back e' h2 tx3)
    from SetMap_loop_frame [OF rolled_back(2)] SetMap_loop_error [OF rolled_back(2)]
      rolled_back(1,4,6)
    show ?thesis by auto
  next
    case (at_commit h2 tx3 h3)
    from Commit_result(5) [OF at_commit(2), of e] SetMap_loop_frame [OF at_commit(1)]
      at_commit(4,6)
    show ?thesis by auto
  qed
  then show "kv_rows h' = kv_rows h"
    and "Some e \<in> set (faults h)
     \<or> Contains owner fieldSep \<and> e = Errorf (''owner can not contain '' @ fieldSep)
     \<or> \<not> Contains owner fieldSep \<and> \<not> list_all (\<lambda>(k, v). \<not> Contains k fieldSep) m
        \<and> e = Errorf (''key can not contain '' @ fieldSep)"
    by simp_all
qed

lemma SetMap_success:
  assumes "SetMap h owner m = (None, h')"
  shows "kv_rows h' = apply_writes (kv_rows h) (writes_of h owner m)"
    and "set (set_rows h') = set (set_rows h) \<union> fst ` set m"
    and "m = [] \<or> \<not> Contains owner fieldSep"
    and "list_all (\<lambda>(k, v). \<not> Contains k fieldSep) m"
    and "same_settings h h'"
proof -
  from assms have "kv_rows h' = apply_writes (kv_rows h) (writes_of h owner m)
    \<and> set (set_rows h') = set (set_rows h) \<union> fst ` set m
    \<and> (m = [] \<or> \<not> Contains owner fieldSep)
    \<and> list_all (\<lambda>(k, v). \<not> Contains k fieldSep) m \<and> same_settings h h'"
  proof (cases rule: SetMap_cases)
    case (not_begun e')
    then show ?thesis by simp
  next
    case (rolled_back e' h2 tx3)
    then show ?thesis by simp
  next
    case (at_commit h2 tx3 h3)
    note l = SetMap_loop_success [OF at_commit(1)] and f = SetMap_loop_frame [OF at_commit(1)]
      and c = Commit_result [OF at_commit(2)]
    have "writes_of h2 owner m = writes_of h owner m"
      using at_commit(3) by (rule writes_of_same)
    moreover have "same_settings h h'"
      using at_commit(3) f c(1) by (auto simp: same_settings_def)
    ultimately show ?thesis
      using l f c(2,6) at_commit(4,5) by auto
  qed
  then show "kv_rows h' = apply_writes (kv_rows h) (writes_of h owner m)"
    and "set (set_rows h') = set (set_rows h) \<union> fst ` set m"
    and "m = [] \<or> \<not> Contains owner fieldSep"
    and "list_all (\<lambda>(k, v). \<not> Contains k fieldSep) m"
    and "same_settings h h'"
    by simp_all
qed

lemma SetMap_no_faults:
  assumes "faults h = []" "SetMap h owner m = (r, h')"
  shows "faults h' = []"
  using assms(2)
proof (cases rule: SetMap_cases)
  case (not_begun e)
  then show ?thesis using assms(1) by simp
next
  case (rolled_back e h2 tx3)
  then show ?thesis using assms(1) SetMap_loop_frame [OF rolled_back(2)] by auto
next
  case (at_commit h2 tx3 h3)
  then show ?thesis
    using assms(1) SetMap_loop_frame [OF at_commit(1)] Commit_result(4) [OF at_commit(2)]
    by auto
qed

subsection \<open>Set and Get\<close>

lemma apply_writes_single: "apply_writes rows [(ck, s)] = AList.update ck s rows"
  by (simp add: apply_writes_def)

lemma Get_stored:
  assumes "fst (next_fault h) = None" "map_of (kv_rows h) (owner @ fieldSep @ key) = Some s"
  shows "fst (Get h owner key) = Inr (if \<not> rawUTF8 h then Decode h s else s)"
  using assms by (auto simp: Get_def KeyValue_Get_def next_fault_alt split: list.splits)

text \<open>
  C1. Let neither \<open>owner\<close> nor \<open>key\<close> contain the separator, and let decoding undo
  the encoding of \<open>val\<close> (or the host store raw values). On any prior state of the two
  tables: when no failure of the backing store is scheduled, \<^verbatim>\<open>Set(owner, key, val)\<close>
  returns \<open>nil\<close> and the \<^verbatim>\<open>Get(owner, key)\<close> that follows returns \<open>val\<close>; and
  under any schedule, whenever \<^verbatim>\<open>Set\<close> has returned \<open>nil\<close> and the read of
  \<^verbatim>\<open>Get\<close> does not fail, \<^verbatim>\<open>Get\<close> returns \<open>val\<close>.
\<close>

theorem Set_then_Get:
  assumes "\<not> Contains owner fieldSep" and "\<not> Contains key fieldSep"
    and "rawUTF8 h \<or> Decode h (Encode h val) = val"
  shows "(faults h = [] \<longrightarrow>
            fst (Set h owner key val) = None
            \<and> fst (Get (snd (Set h owner key val)) owner key) = Inr val)
       \<and> (fst (Set h owner key val) = None
            \<and> fst (next_fault (snd (Set h owner key val))) = None \<longrightarrow>
            fst (Get (snd (Set h owner key val)) owner key) = Inr val)"
proof -
  obtain r h' where set: "SetMap h owner [(key, val)] = (r, h')"
    by (cases "SetMap h owner [(key, val)]")
  have read: "fst (Get h' owner key) = Inr val" if "r = None" "fst (next_fault h') = None"
  proof -
    note s = SetMap_success [OF set [unfolded \<open>r = None\<close>]]
    have "map_of (kv_rows h') (owner @ fieldSep @ key) = Some (stored_value h val)"
      using s(1) by (simp add: writes_of_Cons apply_writes_single update_conv')
    then have "fst (Get h' owner key)
        = Inr (if \<not> rawUTF8 h' then Decode h' (stored_value h val) else stored_value h val)"
      using that(2) by (rule Get_stored [rotated])
    then show ?thesis
      using s(5) assms(3) by (auto simp: same_settings_def stored_value_def)
  qed
  have succeeds: "r = None \<and> faults h' = []" if "faults h = []"
  proof -
    have "r = None"
    proof (cases r)
      case (Some e)
      then show ?thesis
        using SetMap_failure(2) [OF set [unfolded Some]] that assms(1,2) by simp
    qed simp
    then show ?thesis using SetMap_no_faults [OF that set] by simp
  qed
  show ?thesis
    using read succeeds set by (auto simp: Set_def next_fault_Nil)
qed

theorem Set_then_Get_witness:
  "fst (Set encodingHost ''bob'' ''password'' ''old'') = None
   \<and> kv_rows (snd (Set encodingHost ''bob'' ''password'' ''old''))
       = [(''bob'' @ fieldSep @ ''password'', ''dlo'')]
   \<and> fst (Set (snd (Set encodingHost ''bob'' ''password'' ''old'')) ''bob'' ''password'' ''hunter1'')
       = None
   \<and> fst (Get (snd (Set (snd (Set encodingHost ''bob'' ''password'' ''old''))
                    ''bob'' ''password'' ''hunter1'')) ''bob'' ''password'') = Inr ''hunter1''"
  using Set_then_Get [of "''bob''" "''password''" "snd (Set encodingHost ''bob'' ''password'' ''old'')"
      "''hunter1''"]
  by (simp add: encodingHost_def hm2_defs prim_defs fieldSep_def)

subsection \<open>SetMap and the separator\<close>

text \<open>
  C2, as stated, fails for an empty map: the separator checks stand in the loop over the
  pairs, so \<^verbatim>\<open>SetMap\<close> with an owner that contains the separator and no pair commits
  the empty transaction and returns \<open>nil\<close>.
\<close>

theorem SetMap_empty_map_counterexample:
  "Contains (''a'' @ fieldSep @ ''b'') fieldSep
   \<and> fst (SetMap emptyHost (''a'' @ fieldSep @ ''b'') []) = None"
  by (simp add: emptyHost_def hm2_defs prim_defs fieldSep_def)

text \<open>
  C2, amended. Whenever \<^verbatim>\<open>SetMap\<close> returns an error, the data table is as it was
  before the call. When the map has at least one pair and the owner contains the
  separator, or when a key of the map contains it, \<^verbatim>\<open>SetMap\<close> returns an error and
  the data table is as it was before the call; the error is the one naming the owner
  (when the owner contains the separator) or the one naming the key, unless a call to
  the backing store failed before the check was reached, and then it is that failure.
  With no failure scheduled it is the validation error.
\<close>

theorem SetMap_validation_rolls_back:
  "(fst (SetMap h owner m) \<noteq> None \<longrightarrow> kv_rows (snd (SetMap h owner m)) = kv_rows h)
   \<and> (m \<noteq> [] \<and> Contains owner fieldSep \<or> (\<exists>k \<in> fst ` set m. Contains k fieldSep) \<longrightarrow>
        kv_rows (snd (SetMap h owner m)) = kv_rows h
        \<and> (\<exists>e. fst (SetMap h owner m) = Some e
              \<and> (Contains owner fieldSep \<and> e = Errorf (''owner can not contain '' @ fieldSep)
                 \<or> \<not> Contains owner fieldSep \<and> e = Errorf (''key can not contain '' @ fieldSep)
                 \<or> Some e \<in> set (faults h)))
        \<and> (faults h = [] \<longrightarrow>
             fst (SetMap h owner m)
               = Some (Errorf ((if Contains owner fieldSep then ''owner'' else ''key'')
                               @ '' can not contain '' @ fieldSep))))"
proof -
  obtain r h' where set: "SetMap h owner m = (r, h')" by (cases "SetMap h owner m")
  have unchanged: "kv_rows h' = kv_rows h" if "r \<noteq> None"
    using that SetMap_failure(1) set by (cases r) auto
  have invalid: "list_all (\<lambda>(k, v). \<not> Contains k fieldSep) m
      = (\<not> (\<exists>k \<in> fst ` set m. Contains k fieldSep))"
    by (auto simp: list_all_iff)
  have stops: "\<exists>e. r = Some e
        \<and> (Contains owner fieldSep \<and> e = Errorf (''owner can not contain '' @ fieldSep)
           \<or> \<not> Contains owner fieldSep \<and> e = Errorf (''key can not contain '' @ fieldSep)
           \<or> Some e \<in> set (faults h))"
    if bad: "m \<noteq> [] \<and> Contains owner fieldSep \<or> (\<exists>k \<in> fst ` set m. Contains k fieldSep)"
  proof (cases r)
    case None
    then show ?thesis
      using SetMap_success(3,4) [OF set [unfolded None]] bad invalid by auto
  next
    case (Some e)
    then show ?thesis
      using SetMap_failure(2) [OF set [unfolded Some]] by auto
  qed
  have msg: "r = Some (Errorf ((if Contains owner fieldSep then ''owner'' else ''key'')
                               @ '' can not contain '' @ fieldSep))"
    if "m \<noteq> [] \<and> Contains owner fieldSep \<or> (\<exists>k \<in> fst ` set m. Contains k fieldSep)"
      "faults h = []"
    using stops [OF that(1)] that(2) by auto
  show ?thesis
    using unchanged stops msg set by auto
qed

theorem SetMap_validation_rolls_back_witness:
  "fst (SetMap (bobAndAlice emptyHost) ''bob'' [(''email'', ''bob@bob''), (''a'' @ fieldSep, ''x'')])
     = Some (Errorf (''key can not contain '' @ fieldSep))
   \<and> kv_rows (snd (SetMap (bobAndAlice emptyHost) ''bob''
         [(''email'', ''bob@bob''), (''a'' @ fieldSep, ''x'')])) = kv_rows (bobAndAlice emptyHost)
   \<and> set_rows (snd (SetMap (bobAndAlice emptyHost) ''bob''
         [(''email'', ''bob@bob''), (''a'' @ fieldSep, ''x'')])) = [''password'', ''number'', ''email'']
   \<and> fst (SetMap (bobAndAlice emptyHost) (''bob'' @ fieldSep) [(''email'', ''bob@bob'')])
     = Some (Errorf (''owner can not contain '' @ fieldSep))"
  using SetMap_validation_rolls_back [of "bobAndAlice emptyHost" "''bob''"
      "[(''email'', ''bob@bob''), (''a'' @ fieldSep, ''x'')]"]
    SetMap_validation_rolls_back [of "bobAndAlice emptyHost" "''bob'' @ fieldSep"
      "[(''email'', ''bob@bob'')]"]
  by (simp add: emptyHost_def bobAndAlice_def hm2_defs prim_defs fieldSep_def)

subsection \<open>Keys\<close>

lemma Has_result:
  assumes "Has h owner key = (res, h')"
  shows "same_settings h h'" and "kv_rows h' = kv_rows h" and "set_rows h' = set_rows h"
    and "res = (True, None) \<Longrightarrow> holds_value h owner key"
    and "faults h = [] \<Longrightarrow> res = (holds_value h owner key, None) \<and> h' = h"
  using assms
  by (auto simp: Has_def KeyValue_Get_def next_fault_alt same_settings_def holds_value_def
      read_value_def noResult_def split: option.splits list.splits if_splits)

lemma holds_value_same:
  "same_settings h h' \<Longrightarrow> kv_rows h' = kv_rows h \<Longrightarrow> holds_value h' owner key = holds_value h owner key"
  by (simp add: holds_value_def read_value_def same_settings_def split: option.splits)

lemma Keys_loop_no_faults:
  "faults h = [] \<Longrightarrow>
   Keys_loop h owner allProps allKeys = (allKeys @ filter (holds_value h owner) allProps, h)"
proof (induction allProps arbitrary: allKeys)
  case Nil
  then show ?case by simp
next
  case (Cons key allProps)
  obtain res h' where has: "Has h owner key = (res, h')" by (cases "Has h owner key")
  from Has_result(5) [OF has Cons.prems] have "res = (holds_value h owner key, None)" "h' = h"
    by simp_all
  with has Cons show ?case by simp
qed

lemma Keys_loop_subset:
  "Keys_loop h owner allProps allKeys = (ks, h') \<Longrightarrow>
   set ks \<subseteq> set allKeys \<union> {k \<in> set allProps. holds_value h owner k}"
proof (induction allProps arbitrary: h allKeys)
  case Nil
  then show ?case by auto
next
  case (Cons key allProps)
  obtain found err h1 where has: "Has h owner key = ((found, err), h1)"
    by (cases "Has h owner key") auto
  note p = Has_result [OF has]
  have hv: "holds_value h1 owner k = holds_value h owner k" for k
    using p(1,2) by (rule holds_value_same)
  show ?case
  proof (cases "err = None \<and> found")
    case True
    with Cons.prems has have "Keys_loop h1 owner allProps (allKeys @ [key]) = (ks, h')"
      by simp
    from Cons.IH [OF this] p(4) True show ?thesis
      by (auto simp: hv)
  next
    case False
    with Cons.prems has have "Keys_loop h1 owner allProps allKeys = (ks, h')"
      by auto
    from Cons.IH [OF this] show ?thesis
      by (auto simp: hv)
  qed
qed

text \<open>
  C7, as stated, fails: a key the owner holds with the empty string is left out, since
  \<^verbatim>\<open>Keys\<close> keeps a key only when \<^verbatim>\<open>Has\<close> gives \<open>true\<close>. Bob holds \<open>note\<close> with
  the empty value (the read succeeds) and \<open>password\<close>; both are in the property set;
  \<^verbatim>\<open>Keys("bob")\<close> returns \<open>password\<close> alone.
\<close>

theorem Keys_empty_value_counterexample:
  "fst (Get bobWithEmptyNote ''bob'' ''note'') = Inr []
   \<and> fst (AllEncounteredKeys bobWithEmptyNote) = Inr [''note'', ''password'']
   \<and> fst (Keys bobWithEmptyNote ''bob'') = ([''password''], None)"
  by (simp add: bobWithEmptyNote_def emptyHost_def hm2_defs prim_defs fieldSep_def)

text \<open>
  C7, amended. Every key \<^verbatim>\<open>Keys(owner)\<close> returns is a key of the property set for
  which a value that reads as non-empty is stored under that owner, so no key held only
  by other owners is included. When the read of the property set fails, \<^verbatim>\<open>Keys\<close>
  returns the empty list with that error, and otherwise a \<open>nil\<close> error. When no
  failure of the backing store is scheduled, \<^verbatim>\<open>Keys(owner)\<close> returns exactly the
  keys of the property set for which a non-empty value is stored under the owner, in the
  order of the property set; and if every key stored under the owner is in the property
  set, these are all the keys the owner holds with a non-empty value.
\<close>

theorem Keys_result:
  "set (fst (fst (Keys h owner))) \<subseteq> {k \<in> set (set_rows h). holds_value h owner k}
   \<and> (fst (next_fault h) = Some e \<longrightarrow> fst (Keys h owner) = ([], Some e))
   \<and> (fst (next_fault h) = None \<longrightarrow> snd (fst (Keys h owner)) = None)
   \<and> (faults h = [] \<longrightarrow>
        fst (Keys h owner) = (filter (holds_value h owner) (set_rows h), None)
        \<and> ((\<forall>k. owner @ fieldSep @ k \<in> fst ` set (kv_rows h) \<longrightarrow> k \<in> set (set_rows h)) \<longrightarrow>
             set (fst (fst (Keys h owner))) = {k. holds_value h owner k}))"
proof -
  obtain r1 h1 where all: "Set_All h = (r1, h1)" by (cases "Set_All h")
  note p = Set_All_result [OF all]
  have subset: "set (fst (fst (Keys h owner))) \<subseteq> {k \<in> set (set_rows h). holds_value h owner k}"
  proof (cases r1)
    case (Inl e1)
    with all show ?thesis by (simp add: Keys_def)
  next
    case (Inr allProps)
    obtain ks h2 where loop: "Keys_loop h1 owner allProps [] = (ks, h2)"
      by (cases "Keys_loop h1 owner allProps []")
    have "holds_value h1 owner k = holds_value h owner k" for k
      using p(1,2) by (rule holds_value_same)
    with Keys_loop_subset [OF loop] p(7) [OF Inr] have "set ks \<subseteq> {k \<in> set (set_rows h). holds_value h owner k}"
      by auto
    with all Inr loop show ?thesis by (simp add: Keys_def)
  qed
  have fails: "fst (Keys h owner) = ([], Some e)" if "fst (next_fault h) = Some e"
    using that by (auto simp: Keys_def Set_All_def split: prod.splits option.splits)
  have nil: "snd (fst (Keys h owner)) = None" if "fst (next_fault h) = None"
    using that by (auto simp: Keys_def Set_All_def split: prod.splits option.splits)
  have exact: "fst (Keys h owner) = (filter (holds_value h owner) (set_rows h), None)"
    if "faults h = []"
  proof -
    have "Set_All h = (Inr (set_rows h), h)"
      using that by (simp add: Set_All_def next_fault_Nil)
    then show ?thesis
      using that by (simp add: Keys_def Keys_loop_no_faults)
  qed
  have held: "k \<in> set (set_rows h)"
    if "\<forall>k. owner @ fieldSep @ k \<in> fst ` set (kv_rows h) \<longrightarrow> k \<in> set (set_rows h)"
      "holds_value h owner k" for k
  proof -
    from that(2) obtain s where "map_of (kv_rows h) (owner @ fieldSep @ k) = Some s"
      by (auto simp: holds_value_def split: option.splits)
    then have "owner @ fieldSep @ k \<in> fst ` set (kv_rows h)"
      by (metis map_of_SomeD fst_conv image_eqI)
    with that(1) show ?thesis by blast
  qed
  have complete: "set (fst (fst (Keys h owner))) = {k. holds_value h owner k}"
    if "faults h = []"
      "\<forall>k. owner @ fieldSep @ k \<in> fst ` set (kv_rows h) \<longrightarrow> k \<in> set (set_rows h)"
    using exact [OF that(1)] held [OF that(2)] by auto
  show ?thesis
    using subset fails nil exact complete by blast
qed

theorem Keys_result_witness:
  "fst (Keys (bobAndAlice emptyHost) ''alice'') = ([''number''], None)
   \<and> fst (Keys (bobAndAlice emptyHost) ''bob'') = ([''password'', ''number''], None)
   \<and> fst (AllEncounteredKeys (bobAndAlice emptyHost)) = Inr [''password'', ''number'']
   \<and> holds_value (bobAndAlice emptyHost) ''alice'' ''number''
   \<and> \<not> holds_value (bobAndAlice emptyHost) ''alice'' ''password''"
  using Keys_result [of "bobAndAlice emptyHost" "''alice''"]
  by (simp add: emptyHost_def bobAndAlice_def hm2_defs prim_defs fieldSep_def holds_value_def
      read_value_def)

subsection \<open>SetLargeMap\<close>

lemma go_through_0 [simp]: "go_through fs 0"
  by (simp add: go_through_def)

lemma go_through_Nil [simp]: "go_through [] n"
  by (simp add: go_through_def)

lemma go_through_Suc:
  "go_through fs (Suc n) = (case fs of [] \<Rightarrow> True | f # fs' \<Rightarrow> f = None \<and> go_through fs' n)"
  by (cases fs) (simp_all add: go_through_def)

lemma go_through_add: "go_through fs (m + n) = (go_through fs m \<and> go_through (drop m fs) n)"
  by (simp add: go_through_def take_add)

lemma go_through_next:
  "go_through (faults h) (Suc n) \<Longrightarrow> fst (next_fault h) = None \<and> go_through (tl (faults h)) n"
  by (cases "faults h") (simp_all add: go_through_Suc next_fault_def)

lemma fails_at_0: "fails_at fs 0 e = (\<exists>fs'. fs = Some e # fs')"
  by (cases fs) (auto simp: fails_at_def)

lemma fails_at_Suc: "fails_at fs (Suc n) e = (\<exists>fs'. fs = None # fs' \<and> fails_at fs' n e)"
  by (cases fs) (auto simp: fails_at_def go_through_Suc)

lemma fails_at_add: "fails_at fs (m + n) e = (go_through fs m \<and> fails_at (drop m fs) n e)"
  by (auto simp: fails_at_def go_through_add add.commute)

lemma fails_at_member: "fails_at fs n e \<Longrightarrow> Some e \<in> set fs"
  by (metis fails_at_def nth_mem)

lemma fails_at_next_0: "fails_at (faults h) 0 e \<Longrightarrow> fst (next_fault h) = Some e"
  by (auto simp: fails_at_0 next_fault_def)

lemma fails_at_next_Suc:
  "fails_at (faults h) (Suc j) e \<Longrightarrow> fst (next_fault h) = None \<and> fails_at (tl (faults h)) j e"
  by (auto simp: fails_at_Suc next_fault_def)

lemma tl_drop_Suc: "tl (drop n xs) = drop (Suc n) xs"
  by (simp add: drop_Suc tl_drop)

lemma hasS_iff [simp]: "hasS xs x = (x \<in> set xs)"
  by (simp add: hasS_def)

lemma findNewProps_owner_set:
  "set (findNewProps_owner props propMap newProps)
     = set newProps \<union> (set (map fst propMap) - set props)"
proof (induction propMap arbitrary: newProps)
  case Nil
  then show ?case by simp
next
  case (Cons a propMap)
  obtain k v where a: "a = (k, v)" by (cases a)
  show ?case
    unfolding a by (simp add: Cons.IH) blast
qed

lemma all_keys_Nil [simp]: "all_keys [] = []"
  by (simp add: all_keys_def)

lemma all_keys_Cons [simp]:
  "all_keys ((owner, propMap) # allProperties) = map fst propMap @ all_keys allProperties"
  by (simp add: all_keys_def)

lemma findNewProps_owner_distinct:
  "distinct newProps \<Longrightarrow> distinct (findNewProps_owner props propMap newProps)"
  by (induction propMap arbitrary: newProps) auto

lemma findNewProps_set:
  "set (findNewProps props allProperties newProps)
     = set newProps \<union> (set (all_keys allProperties) - set props)"
proof (induction allProperties arbitrary: newProps)
  case Nil
  then show ?case by simp
next
  case (Cons a allProperties)
  obtain owner propMap where a: "a = (owner, propMap)" by (cases a)
  show ?case
    unfolding a by (simp add: Cons.IH findNewProps_owner_set) blast
qed

lemma findNewProps_distinct:
  "distinct newProps \<Longrightarrow> distinct (findNewProps props allProperties newProps)"
  by (induction allProperties arbitrary: newProps) (auto simp: findNewProps_owner_distinct)

lemma storeNewProps_result:
  "storeNewProps h newProps = (r, h') \<Longrightarrow>
     same_settings h h' \<and> kv_rows h' = kv_rows h \<and> set (faults h') \<subseteq> set (faults h)
     \<and> set (set_rows h) \<subseteq> set (set_rows h')
     \<and> (r = None \<longrightarrow> set (set_rows h') = set (set_rows h) \<union> set newProps)
     \<and> (\<forall>e. r = Some e \<longrightarrow> Some e \<in> set (faults h))"
proof (induction newProps arbitrary: h)
  case Nil
  then show ?case by auto
next
  case (Cons np newProps)
  obtain r1 h1 where add: "Set_Add h np = (r1, h1)" by (cases "Set_Add h np")
  note p = Set_Add_result [OF add]
  show ?case
  proof (cases r1)
    case (Some e1)
    with Cons.prems add have "r = Some e1" "h' = h1" by simp_all
    then show ?thesis using p(1-4) p(6) [OF Some] by simp
  next
    case None
    with Cons.prems add have "storeNewProps h1 newProps = (r, h')" by simp
    from Cons.IH [OF this] p(1-4) p(5) [OF None] show ?thesis
      by (auto simp: same_settings_def)
  qed
qed

lemma storeNewProps_run:
  "go_through (faults h) (length newProps) \<Longrightarrow> distinct newProps \<Longrightarrow>
   set newProps \<inter> set (set_rows h) = {} \<Longrightarrow>
   storeNewProps h newProps
     = (None, h\<lparr>set_rows := set_rows h @ newProps,
                 faults := drop (length newProps) (faults h)\<rparr>)"
proof (induction newProps arbitrary: h)
  case Nil
  then show ?case by simp
next
  case (Cons np newProps)
  let ?h1 = "h\<lparr>faults := tl (faults h), set_rows := set_rows h @ [np]\<rparr>"
  from Cons.prems have add: "Set_Add h np = (None, ?h1)"
    using go_through_next [of h "length newProps"]
    by (auto simp: Set_Add_def next_fault_alt split: list.splits option.splits)
  have "go_through (faults ?h1) (length newProps)"
    using Cons.prems(1) go_through_next [of h "length newProps"] by simp
  moreover have "distinct newProps" "set newProps \<inter> set (set_rows ?h1) = {}"
    using Cons.prems(2,3) by auto
  ultimately show ?case
    using Cons.IH [of ?h1] add by (simp add: drop_Suc)
qed

lemma Set_Add_Some:
  "fst (next_fault h) = Some e \<Longrightarrow> Set_Add h v = (Some e, h\<lparr>faults := tl (faults h)\<rparr>)"
  by (simp add: Set_Add_def next_fault_alt split: list.splits option.splits)

lemma storeNewProps_fail:
  "fails_at (faults h) j e \<Longrightarrow> j < length newProps \<Longrightarrow>
   \<exists>h'. storeNewProps h newProps = (Some e, h') \<and> kv_rows h' = kv_rows h"
proof (induction newProps arbitrary: h j)
  case Nil
  then show ?case by simp
next
  case (Cons np newProps)
  show ?case
  proof (cases j)
    case 0
    with Cons.prems have "fst (next_fault h) = Some e" by (simp add: fails_at_next_0)
    then show ?thesis
      by (simp add: Set_Add_Some)
  next
    case (Suc j')
    with Cons.prems have ok: "fst (next_fault h) = None" "fails_at (tl (faults h)) j' e"
      "j' < length newProps"
      using fails_at_next_Suc [of h j' e] by simp_all
    obtain h1 where add: "Set_Add h np = (None, h1)" and h1: "faults h1 = tl (faults h)"
      "kv_rows h1 = kv_rows h"
      using ok(1) by (auto simp: Set_Add_def next_fault_alt split: list.splits option.splits)
    from Cons.IH [of h1 j'] ok(2,3) h1 add show ?thesis
      by auto
  qed
qed

lemma stored_value_faults [simp]: "stored_value (h\<lparr>faults := fs\<rparr>) v = stored_value h v"
  by (simp add: stored_value_def)

lemma writes_of_faults [simp]: "writes_of (h\<lparr>faults := fs\<rparr>) owner m = writes_of h owner m"
  by (simp add: writes_of_def)

lemma all_writes_faults [simp]: "all_writes (h\<lparr>faults := fs\<rparr>) allProperties = all_writes h allProperties"
  by (simp add: all_writes_def)

lemma all_writes_Nil [simp]: "all_writes h [] = []"
  by (simp add: all_writes_def)

lemma all_writes_Cons [simp]:
  "all_writes h ((owner, propMap) # allProperties)
     = writes_of h owner propMap @ all_writes h allProperties"
  by (simp add: all_writes_def)

lemma all_writes_same: "same_settings h h' \<Longrightarrow> all_writes h' allProperties = all_writes h allProperties"
  by (simp add: all_writes_def writes_of_same cong: map_cong)

lemma length_writes_of [simp]: "length (writes_of h owner m) = length m"
  by (simp add: writes_of_def)

lemma updateWithTransaction_None:
  "fst (next_fault h) = None \<Longrightarrow>
   updateWithTransaction h transaction ck s
     = (None, transaction @ [(ck, s)], h\<lparr>faults := tl (faults h)\<rparr>)"
  by (simp add: updateWithTransaction_def next_fault_alt split: list.splits option.splits)

lemma updateWithTransaction_Some:
  "fst (next_fault h) = Some e \<Longrightarrow>
   updateWithTransaction h transaction ck s = (Some e, transaction, h\<lparr>faults := tl (faults h)\<rparr>)"
  by (simp add: updateWithTransaction_def next_fault_alt split: list.splits option.splits)

lemma next_fault_member: "fst (next_fault h) = Some e \<Longrightarrow> Some e \<in> set (faults h)"
  by (cases "faults h") (auto simp: next_fault_def)

lemma updateOwner_result:
  "updateOwner h transaction owner propMap = (r, tx', h') \<Longrightarrow>
     same_settings h h' \<and> kv_rows h' = kv_rows h \<and> set_rows h' = set_rows h
     \<and> set (faults h') \<subseteq> set (faults h)
     \<and> (r = None \<longrightarrow> tx' = transaction @ writes_of h owner propMap)
     \<and> (\<forall>e. r = Some e \<longrightarrow> Some e \<in> set (faults h))"
proof (induction propMap arbitrary: h transaction)
  case Nil
  then show ?case by auto
next
  case (Cons a propMap)
  obtain k v where a: "a = (k, v)" by (cases a)
  let ?h1 = "h\<lparr>faults := tl (faults h)\<rparr>"
  have sub: "set (faults ?h1) \<subseteq> set (faults h)" using set_tl_subset [of "faults h"] by simp
  show ?case
  proof (cases "fst (next_fault h)")
    case None
    from Cons.prems have "updateOwner ?h1 (transaction @ [(owner @ fieldSep @ k, stored_value h v)])
        owner propMap = (r, tx', h')"
      by (simp add: a updateWithTransaction_None [OF None] stored_value_def)
    from Cons.IH [OF this] sub show ?thesis
      by (auto simp: a writes_of_Cons same_settings_def)
  next
    case (Some e)
    from Cons.prems have "r = Some e" "h' = ?h1"
      by (simp_all add: a updateWithTransaction_Some [OF Some])
    then show ?thesis
      using sub next_fault_member [OF Some] by (simp add: same_settings_def)
  qed
qed

lemma updateOwners_result:
  "updateOwners h transaction allProperties = (r, tx', h') \<Longrightarrow>
     same_settings h h' \<and> kv_rows h' = kv_rows h \<and> set_rows h' = set_rows h
     \<and> set (faults h') \<subseteq> set (faults h)
     \<and> (r = None \<longrightarrow> tx' = transaction @ all_writes h allProperties)
     \<and> (\<forall>e. r = Some e \<longrightarrow> Some e \<in> set (faults h))"
proof (induction allProperties arbitrary: h transaction)
  case Nil
  then show ?case by auto
next
  case (Cons a allProperties)
  obtain owner propMap where a: "a = (owner, propMap)" by (cases a)
  obtain r1 tx1 h1 where own: "updateOwner h transaction owner propMap = (r1, tx1, h1)"
    by (metis prod_cases3)
  note p = updateOwner_result [OF own]
  show ?case
  proof (cases r1)
    case None
    with Cons.prems own have "updateOwners h1 tx1 allProperties = (r, tx', h')"
      by (simp add: a)
    from Cons.IH [OF this] p None all_writes_same [of h h1 allProperties] show ?thesis
      by (auto simp: a same_settings_def)
  next
    case (Some e)
    with Cons.prems own have "r = Some e" "h' = h1"
      by (simp_all add: a)
    then show ?thesis using p Some by simp
  qed
qed

lemma updateOwner_run:
  "go_through (faults h) (length propMap) \<Longrightarrow>
   updateOwner h transaction owner propMap
     = (None, transaction @ writes_of h owner propMap,
        h\<lparr>faults := drop (length propMap) (faults h)\<rparr>)"
proof (induction propMap arbitrary: h transaction)
  case Nil
  then show ?case by simp
next
  case (Cons a propMap)
  obtain k v where a: "a = (k, v)" by (cases a)
  from Cons.prems have ok: "fst (next_fault h) = None" "go_through (tl (faults h)) (length propMap)"
    using go_through_next [of h "length propMap"] by simp_all
  show ?case
    using Cons.IH [of "h\<lparr>faults := tl (faults h)\<rparr>"] ok(2)
    by (simp add: a updateWithTransaction_None [OF ok(1)] stored_value_def writes_of_Cons
        drop_Suc)
qed

lemma updateOwner_fail:
  "fails_at (faults h) j e \<Longrightarrow> j < length propMap \<Longrightarrow>
   \<exists>tx'. updateOwner h transaction owner propMap
     = (Some e, tx', h\<lparr>faults := drop (Suc j) (faults h)\<rparr>)"
proof (induction propMap arbitrary: h transaction j)
  case Nil
  then show ?case by simp
next
  case (Cons a propMap)
  obtain k v where a: "a = (k, v)" by (cases a)
  show ?case
  proof (cases j)
    case 0
    with Cons.prems have "fst (next_fault h) = Some e" by (simp add: fails_at_next_0)
    then show ?thesis
      by (simp add: a 0 updateWithTransaction_Some drop_Suc)
  next
    case (Suc j')
    with Cons.prems have ok: "fst (next_fault h) = None" "fails_at (tl (faults h)) j' e"
      "j' < length propMap"
      using fails_at_next_Suc [of h j' e] by simp_all
    from Cons.IH [of "h\<lparr>faults := tl (faults h)\<rparr>" j'] ok(2,3) show ?thesis
      by (simp add: a Suc updateWithTransaction_None [OF ok(1)] stored_value_def drop_Suc)
  qed
qed

lemma updateOwners_run:
  "go_through (faults h) (length (all_writes h allProperties)) \<Longrightarrow>
   updateOwners h transaction allProperties
     = (None, transaction @ all_writes h allProperties,
        h\<lparr>faults := drop (length (all_writes h allProperties)) (faults h)\<rparr>)"
proof (induction allProperties arbitrary: h transaction)
  case Nil
  then show ?case by simp
next
  case (Cons a allProperties)
  obtain owner propMap where a: "a = (owner, propMap)" by (cases a)
  from Cons.prems have ok: "go_through (faults h) (length propMap)"
    "go_through (drop (length propMap) (faults h)) (length (all_writes h allProperties))"
    by (simp_all add: a go_through_add)
  show ?case
    using Cons.IH [of "h\<lparr>faults := drop (length propMap) (faults h)\<rparr>"] ok(2)
    by (simp add: a updateOwner_run [OF ok(1)] add.commute)
qed

lemma updateOwners_fail:
  "fails_at (faults h) j e \<Longrightarrow> j < length (all_writes h allProperties) \<Longrightarrow>
   \<exists>tx'. updateOwners h transaction allProperties
     = (Some e, tx', h\<lparr>faults := drop (Suc j) (faults h)\<rparr>)"
proof (induction allProperties arbitrary: h transaction j)
  case Nil
  then show ?case by simp
next
  case (Cons a allProperties)
  obtain owner propMap where a: "a = (owner, propMap)" by (cases a)
  show ?case
  proof (cases "j < length propMap")
    case True
    from updateOwner_fail [OF Cons.prems(1) True, of transaction owner] show ?thesis
      by (auto simp: a)
  next
    case False
    then have j: "j = length propMap + (j - length propMap)" by simp
    from Cons.prems(1) have ok: "go_through (faults h) (length propMap)"
      "fails_at (drop (length propMap) (faults h)) (j - length propMap) e"
      by (subst (asm) j, simp add: fails_at_add)+
    have "j - length propMap < length (all_writes h allProperties)"
      using Cons.prems(2) False by (simp add: a)
    from Cons.IH [of "h\<lparr>faults := drop (length propMap) (faults h)\<rparr>" "j - length propMap"]
      ok(2) this
    obtain tx' where "updateOwners (h\<lparr>faults := drop (length propMap) (faults h)\<rparr>)
        (transaction @ writes_of h owner propMap) allProperties
      = (Some e, tx', h\<lparr>faults := drop (Suc (j - length propMap)) (drop (length propMap) (faults h))\<rparr>)"
      by auto
    moreover have "Suc (j - length propMap) + length propMap = Suc j"
      using False by simp
    ultimately show ?thesis
      by (simp add: a updateOwner_run [OF ok(1)])
  qed
qed

lemma stored_value_set_rows [simp]: "stored_value (h\<lparr>set_rows := ps\<rparr>) v = stored_value h v"
  by (simp add: stored_value_def)

lemma all_writes_set_rows [simp]:
  "all_writes (h\<lparr>set_rows := ps\<rparr>) allProperties = all_writes h allProperties"
  by (simp add: all_writes_def writes_of_def)

lemma Set_All_None:
  "fst (next_fault h) = None \<Longrightarrow> Set_All h = (Inr (set_rows h), h\<lparr>faults := tl (faults h)\<rparr>)"
  by (simp add: Set_All_def next_fault_alt split: list.splits option.splits)

lemma BeginTx_None:
  "fst (next_fault h) = None \<Longrightarrow> BeginTx h = (Inr [], h\<lparr>faults := tl (faults h)\<rparr>)"
  by (simp add: BeginTx_def next_fault_alt split: list.splits option.splits)

lemma BeginTx_Some:
  "fst (next_fault h) = Some e \<Longrightarrow> BeginTx h = (Inl e, h\<lparr>faults := tl (faults h)\<rparr>)"
  by (simp add: BeginTx_def next_fault_alt split: list.splits option.splits)

lemma Commit_None:
  "fst (next_fault h) = None \<Longrightarrow>
   Commit h transaction
     = (None, h\<lparr>faults := tl (faults h), kv_rows := apply_writes (kv_rows h) transaction\<rparr>)"
  by (simp add: Commit_def next_fault_alt split: list.splits option.splits)

lemma SetLargeMap_prefix:
  assumes "go_through (faults h) (Suc (length (findNewProps (set_rows h) allProperties [])))"
  shows "Set_All h = (Inr (set_rows h), h\<lparr>faults := tl (faults h)\<rparr>)"
    and "storeNewProps (h\<lparr>faults := tl (faults h)\<rparr>) (findNewProps (set_rows h) allProperties [])
      = (None, h\<lparr>set_rows := set_rows h @ findNewProps (set_rows h) allProperties [],
                  faults := drop (Suc (length (findNewProps (set_rows h) allProperties [])))
                              (faults h)\<rparr>)"
proof -
  let ?np = "findNewProps (set_rows h) allProperties []"
  from assms have ok: "fst (next_fault h) = None" "go_through (tl (faults h)) (length ?np)"
    using go_through_next [of h "length ?np"] by simp_all
  show "Set_All h = (Inr (set_rows h), h\<lparr>faults := tl (faults h)\<rparr>)"
    using ok(1) by (rule Set_All_None)
  have "distinct ?np" by (simp add: findNewProps_distinct)
  moreover have "set ?np \<inter> set (set_rows h) = {}"
    by (auto simp: findNewProps_set)
  ultimately show "storeNewProps (h\<lparr>faults := tl (faults h)\<rparr>) ?np
      = (None, h\<lparr>set_rows := set_rows h @ ?np, faults := drop (Suc (length ?np)) (faults h)\<rparr>)"
    using storeNewProps_run [of "h\<lparr>faults := tl (faults h)\<rparr>" ?np] ok(2)
    by (simp add: drop_Suc)
qed

lemma next_fault_update [simp]:
  "fst (next_fault (h\<lparr>set_rows := ps, faults := fs\<rparr>)) = fst (next_fault (h\<lparr>faults := fs\<rparr>))"
  by (simp add: next_fault_def split: list.splits)

lemma go_through_drop_next:
  "go_through (drop n fs) (Suc k) \<Longrightarrow>
   fst (next_fault (h\<lparr>faults := drop n fs\<rparr>)) = None \<and> go_through (drop (Suc n) fs) k"
  using go_through_next [of "h\<lparr>faults := drop n fs\<rparr>" k] by (simp add: drop_Suc tl_drop)

lemma fails_at_drop_next:
  "fails_at (drop n fs) 0 e \<Longrightarrow> fst (next_fault (h\<lparr>faults := drop n fs\<rparr>)) = Some e"
  using fails_at_next_0 [of "h\<lparr>faults := drop n fs\<rparr>" e] by simp

lemma SetLargeMap_run:
  assumes "go_through (faults h)
      (length (findNewProps (set_rows h) allProperties []) + length (all_writes h allProperties) + 3)"
  shows "SetLargeMap h allProperties
    = (None, h\<lparr>set_rows := set_rows h @ findNewProps (set_rows h) allProperties [],
                faults := drop (length (findNewProps (set_rows h) allProperties [])
                                + length (all_writes h allProperties) + 3) (faults h),
                kv_rows := apply_writes (kv_rows h) (all_writes h allProperties)\<rparr>)"
proof -
  let ?np = "findNewProps (set_rows h) allProperties []"
  let ?n = "length ?np" and ?w = "length (all_writes h allProperties)"
  define h1 where "h1 = h\<lparr>faults := tl (faults h)\<rparr>"
  define h2 where "h2 = h\<lparr>set_rows := set_rows h @ ?np, faults := drop (Suc ?n) (faults h)\<rparr>"
  define h3 where "h3 = h\<lparr>set_rows := set_rows h @ ?np, faults := drop (Suc (Suc ?n)) (faults h)\<rparr>"
  define h4 where "h4 = h\<lparr>set_rows := set_rows h @ ?np,
    faults := drop (?w + Suc (Suc ?n)) (faults h)\<rparr>"
  define h5 where "h5 = h\<lparr>set_rows := set_rows h @ ?np,
    faults := drop (Suc (?w + Suc (Suc ?n))) (faults h),
    kv_rows := apply_writes (kv_rows h) (all_writes h allProperties)\<rparr>"
  have eq: "?n + ?w + 3 = Suc ?n + (Suc ?w + 1)" by simp
  from assms have a: "go_through (faults h) (Suc ?n)"
    and b: "go_through (drop (Suc ?n) (faults h)) (Suc ?w + 1)"
    unfolding eq go_through_add by simp_all
  have s1: "Set_All h = (Inr (set_rows h), h1)"
    and s2: "storeNewProps h1 ?np = (None, h2)"
    using SetLargeMap_prefix [OF a] by (simp_all add: h1_def h2_def)
  from b have c: "fst (next_fault h2) = None"
    and d: "go_through (drop (Suc (Suc ?n)) (faults h)) (?w + 1)"
    using go_through_drop_next [of "Suc ?n" "faults h" "?w + 1" h] by (simp_all add: h2_def)
  have s3: "BeginTx h2 = (Inr [], h3)"
    using BeginTx_None [OF c] by (simp add: h2_def h3_def tl_drop_Suc)
  from d have e: "go_through (faults h3) ?w"
    and f: "go_through (drop ?w (faults h3)) 1"
    unfolding go_through_add by (simp_all add: h3_def)
  have w3: "all_writes h3 allProperties = all_writes h allProperties"
    by (simp add: h3_def)
  have s4: "updateOwners h3 [] allProperties = (None, all_writes h allProperties, h4)"
    using updateOwners_run [of h3 allProperties "[]"] e unfolding w3
    by (simp add: h3_def h4_def)
  have g: "fst (next_fault h4) = None"
    using f go_through_next [of h4 0] by (simp add: h3_def h4_def)
  have s5: "Commit h4 (all_writes h allProperties) = (None, h5)"
    using Commit_None [OF g] by (simp add: h4_def h5_def tl_drop_Suc)
  have "Suc (?w + Suc (Suc ?n)) = ?n + ?w + 3" by simp
  then have fin: "h5 = h\<lparr>set_rows := set_rows h @ ?np,
      faults := drop (?n + ?w + 3) (faults h),
      kv_rows := apply_writes (kv_rows h) (all_writes h allProperties)\<rparr>"
    unfolding h5_def by (simp only:)
  have "SetLargeMap h allProperties = (None, h5)"
    by (simp add: SetLargeMap_def s1 s2 s3 s4 s5)
  then show ?thesis
    unfolding fin .
qed

lemma SetLargeMap_begin_fails:
  assumes "fails_at (faults h) (Suc (length (findNewProps (set_rows h) allProperties []))) e"
  shows "SetLargeMap h allProperties
    = (Some e, h\<lparr>set_rows := set_rows h @ findNewProps (set_rows h) allProperties [],
                  faults := drop (length (findNewProps (set_rows h) allProperties []) + 2)
                              (faults h)\<rparr>)"
proof -
  let ?np = "findNewProps (set_rows h) allProperties []"
  let ?n = "length ?np"
  define h1 where "h1 = h\<lparr>faults := tl (faults h)\<rparr>"
  define h2 where "h2 = h\<lparr>set_rows := set_rows h @ ?np, faults := drop (Suc ?n) (faults h)\<rparr>"
  define h3 where "h3 = h\<lparr>set_rows := set_rows h @ ?np, faults := drop (?n + 2) (faults h)\<rparr>"
  have "Suc ?n = Suc ?n + 0" by simp
  with assms have a: "go_through (faults h) (Suc ?n)"
    and b: "fails_at (drop (Suc ?n) (faults h)) 0 e"
    using fails_at_add [of "faults h" "Suc ?n" 0 e] by simp_all
  have s1: "Set_All h = (Inr (set_rows h), h1)"
    and s2: "storeNewProps h1 ?np = (None, h2)"
    using SetLargeMap_prefix [OF a] by (simp_all add: h1_def h2_def)
  have c: "fst (next_fault h2) = Some e"
    using fails_at_drop_next [OF b, of h] by (simp add: h2_def)
  have s3: "BeginTx h2 = (Inl e, h3)"
    using BeginTx_Some [OF c] by (simp add: h2_def h3_def tl_drop_Suc)
  show ?thesis
    by (simp add: SetLargeMap_def s1 s2 s3 h3_def)
qed

lemma SetLargeMap_write_fails:
  assumes "j < length (all_writes h allProperties)"
    and "fails_at (faults h) (length (findNewProps (set_rows h) allProperties []) + 2 + j) e"
  shows "SetLargeMap h allProperties
    = (Some e, h\<lparr>set_rows := set_rows h @ findNewProps (set_rows h) allProperties [],
                  faults := drop (length (findNewProps (set_rows h) allProperties []) + 3 + j)
                              (faults h)\<rparr>)"
proof -
  let ?np = "findNewProps (set_rows h) allProperties []"
  let ?n = "length ?np"
  define h1 where "h1 = h\<lparr>faults := tl (faults h)\<rparr>"
  define h2 where "h2 = h\<lparr>set_rows := set_rows h @ ?np, faults := drop (Suc ?n) (faults h)\<rparr>"
  define h3 where "h3 = h\<lparr>set_rows := set_rows h @ ?np, faults := drop (Suc (Suc ?n)) (faults h)\<rparr>"
  define h4 where "h4 = h\<lparr>set_rows := set_rows h @ ?np, faults := drop (?n + 3 + j) (faults h)\<rparr>"
  have eq: "?n + 2 + j = Suc ?n + (1 + j)" by simp
  from assms(2) have a: "go_through (faults h) (Suc ?n)"
    and b: "fails_at (drop (Suc ?n) (faults h)) (1 + j) e"
    unfolding eq fails_at_add by simp_all
  have s1: "Set_All h = (Inr (set_rows h), h1)"
    and s2: "storeNewProps h1 ?np = (None, h2)"
    using SetLargeMap_prefix [OF a] by (simp_all add: h1_def h2_def)
  from b have b': "go_through (drop (Suc ?n) (faults h)) 1"
    and d: "fails_at (drop (Suc (Suc ?n)) (faults h)) j e"
    unfolding fails_at_add by simp_all
  have c: "fst (next_fault h2) = None"
    using go_through_drop_next [of "Suc ?n" "faults h" 0 h] b' by (simp add: h2_def)
  have s3: "BeginTx h2 = (Inr [], h3)"
    using BeginTx_None [OF c] by (simp add: h2_def h3_def tl_drop_Suc)
  have w3: "all_writes h3 allProperties = all_writes h allProperties"
    by (simp add: h3_def)
  have f3: "faults h3 = drop (Suc (Suc ?n)) (faults h)" by (simp add: h3_def)
  have "drop (Suc j) (faults h3) = drop (Suc j + Suc (Suc ?n)) (faults h)"
    unfolding f3 by (rule drop_drop)
  also have "Suc j + Suc (Suc ?n) = ?n + 3 + j" by simp
  finally have dr: "drop (Suc j) (faults h3) = drop (?n + 3 + j) (faults h)" .
  have "h3\<lparr>faults := drop (Suc j) (faults h3)\<rparr> = h4"
    unfolding dr by (simp add: h3_def h4_def)
  with updateOwners_fail [of h3 j e allProperties "[]"] d assms(1) w3
  obtain tx' where s4: "updateOwners h3 [] allProperties = (Some e, tx', h4)"
    by (auto simp: h3_def)
  show ?thesis
    by (simp add: SetLargeMap_def s1 s2 s3 s4 Rollback_def h4_def)
qed

lemma SetLargeMap_result:
  assumes "SetLargeMap h allProperties = (r, h')"
  shows "same_settings h h'" and "set (set_rows h) \<subseteq> set (set_rows h')"
    and "r = Some e \<Longrightarrow> Some e \<in> set (faults h) \<and> kv_rows h' = kv_rows h"
    and "r = None \<Longrightarrow> kv_rows h' = apply_writes (kv_rows h) (all_writes h allProperties)
           \<and> set (set_rows h') = set (set_rows h) \<union> set (all_keys allProperties)"
proof -
  obtain r1 h1 where s1: "Set_All h = (r1, h1)" by (cases "Set_All h")
  note p = Set_All_result [OF s1]
  have "same_settings h h' \<and> set (set_rows h) \<subseteq> set (set_rows h')
    \<and> (r = Some e \<longrightarrow> Some e \<in> set (faults h) \<and> kv_rows h' = kv_rows h)
    \<and> (r = None \<longrightarrow> kv_rows h' = apply_writes (kv_rows h) (all_writes h allProperties)
           \<and> set (set_rows h') = set (set_rows h) \<union> set (all_keys allProperties))"
  proof (cases r1)
    case (Inl e1)
    with assms s1 have "r = Some e1" "h' = h1" by (simp_all add: SetLargeMap_def)
    then show ?thesis using p(1-4) p(6) [OF Inl] by auto
  next
    case (Inr props)
    then have props: "props = set_rows h" using p(7) by simp
    let ?np = "findNewProps (set_rows h) allProperties []"
    obtain r2 h2 where s2: "storeNewProps h1 ?np = (r2, h2)" by (cases "storeNewProps h1 ?np")
    note q = storeNewProps_result [OF s2]
    show ?thesis
    proof (cases r2)
      case (Some e2)
      with assms s1 s2 Inr props have "r = Some e2" "h' = h2" by (simp_all add: SetLargeMap_def)
      then show ?thesis using p(1-4) q Some by (auto simp: same_settings_def)
    next
      case None
      then have rows2: "set (set_rows h2) = set (set_rows h) \<union> set (all_keys allProperties)"
        using q p(3) by (auto simp: findNewProps_set)
      obtain r3 h3 where s3: "BeginTx h2 = (r3, h3)" by (cases "BeginTx h2")
      note b = BeginTx_result [OF s3]
      have same3: "same_settings h h3" "kv_rows h3 = kv_rows h" "set_rows h3 = set_rows h2"
        "set (faults h3) \<subseteq> set (faults h)"
        using p(1,2,4) q b(1-4) by (auto simp: same_settings_def)
      show ?thesis
      proof (cases r3)
        case (Inl e3)
        with assms s1 s2 s3 Inr props None have "r = Some e3" "h' = h3"
          by (simp_all add: SetLargeMap_def)
        moreover have "Some e3 \<in> set (faults h)"
          using b(6) [OF Inl] q p(4) by blast
        ultimately show ?thesis using same3 rows2 by auto
      next
        case (Inr transaction)
        then have tx: "transaction = []" using b(7) by simp
        obtain r4 tx4 h4 where s4: "updateOwners h3 [] allProperties = (r4, tx4, h4)"
          by (metis prod_cases3)
        note u = updateOwners_result [OF s4]
        have same4: "same_settings h h4" "kv_rows h4 = kv_rows h" "set_rows h4 = set_rows h2"
          "set (faults h4) \<subseteq> set (faults h)"
          using same3 u by (auto simp: same_settings_def)
        show ?thesis
        proof (cases r4)
          case (Some e4)
          with assms s1 s2 s3 s4 \<open>r1 = Inr props\<close> props \<open>r2 = None\<close> Inr tx
          have "r = Some e4" "h' = h4"
            by (simp_all add: SetLargeMap_def Rollback_def)
          moreover have "Some e4 \<in> set (faults h)"
            using u Some same3(4) by blast
          ultimately show ?thesis using same4 rows2 by auto
        next
          case None
          with assms s1 s2 s3 s4 \<open>r1 = Inr props\<close> props \<open>r2 = None\<close> Inr tx
          have s5: "Commit h4 tx4 = (r, h')"
            by (simp add: SetLargeMap_def)
          note c = Commit_result [OF s5]
          have "tx4 = all_writes h allProperties"
            using u None all_writes_same [OF same3(1)] by simp
          then show ?thesis
            using c(1-3) c(5) [of e] c(6) same4 rows2 by (auto simp: same_settings_def)
        qed
      qed
    qed
  qed
  then show "same_settings h h'" and "set (set_rows h) \<subseteq> set (set_rows h')"
    and "r = Some e \<Longrightarrow> Some e \<in> set (faults h) \<and> kv_rows h' = kv_rows h"
    and "r = None \<Longrightarrow> kv_rows h' = apply_writes (kv_rows h) (all_writes h allProperties)
           \<and> set (set_rows h') = set (set_rows h) \<union> set (all_keys allProperties)"
    by simp_all
qed

lemma length_all_writes: "length (all_writes h allProperties) = length (all_keys allProperties)"
  by (induction allProperties) auto

text \<open>
  C9. \<^verbatim>\<open>SetLargeMap\<close> has no separator check: every error it returns is a failure of
  the backing store, and then the data table is as it was. The new properties it finds
  are, each once, the keys of the input that are not in the property set, and the writes
  are as many as the triples of the input. When the backing store lets the read of the
  property set, one add per new property, the begin, one write per triple and the
  commit go through, and no more calls than these are made, it returns \<open>nil\<close>, the
  new properties are in the property set and the writes are in the data table. When the
  begin fails, all the new properties are in the property set already. When write \<open>j\<close>
  fails, the error is returned at once (no call of the backing store follows), and
  nothing is in the data table.
\<close>

theorem SetLargeMap_unchecked_bulk:
  "(fst (SetLargeMap h allProperties) = Some e \<longrightarrow>
      Some e \<in> set (faults h) \<and> kv_rows (snd (SetLargeMap h allProperties)) = kv_rows h)
   \<and> distinct (findNewProps (set_rows h) allProperties [])
   \<and> set (findNewProps (set_rows h) allProperties [])
       = set (all_keys allProperties) - set (set_rows h)
   \<and> length (all_writes h allProperties) = length (all_keys allProperties)
   \<and> (go_through (faults h)
         (length (findNewProps (set_rows h) allProperties [])
          + length (all_writes h allProperties) + 3) \<longrightarrow>
       SetLargeMap h allProperties
         = (None, h\<lparr>set_rows := set_rows h @ findNewProps (set_rows h) allProperties [],
                     faults := drop (length (findNewProps (set_rows h) allProperties [])
                                     + length (all_writes h allProperties) + 3) (faults h),
                     kv_rows := apply_writes (kv_rows h) (all_writes h allProperties)\<rparr>))
   \<and> (fails_at (faults h) (Suc (length (findNewProps (set_rows h) allProperties []))) e \<longrightarrow>
       SetLargeMap h allProperties
         = (Some e, h\<lparr>set_rows := set_rows h @ findNewProps (set_rows h) allProperties [],
                       faults := drop (length (findNewProps (set_rows h) allProperties []) + 2)
                                   (faults h)\<rparr>))
   \<and> (j < length (all_writes h allProperties)
       \<and> fails_at (faults h) (length (findNewProps (set_rows h) allProperties []) + 2 + j) e \<longrightarrow>
       SetLargeMap h allProperties
         = (Some e, h\<lparr>set_rows := set_rows h @ findNewProps (set_rows h) allProperties [],
                       faults := drop (length (findNewProps (set_rows h) allProperties []) + 3 + j)
                                   (faults h)\<rparr>))"
proof -
  obtain r h' where res: "SetLargeMap h allProperties = (r, h')"
    by (cases "SetLargeMap h allProperties")
  have err: "fst (SetLargeMap h allProperties) = Some e \<longrightarrow>
      Some e \<in> set (faults h) \<and> kv_rows (snd (SetLargeMap h allProperties)) = kv_rows h"
    using SetLargeMap_result(3) [OF res, of e] res by simp
  have new: "distinct (findNewProps (set_rows h) allProperties [])"
    "set (findNewProps (set_rows h) allProperties []) = set (all_keys allProperties) - set (set_rows h)"
    by (simp_all add: findNewProps_distinct findNewProps_set)
  show ?thesis
    using err new length_all_writes [of h allProperties]
      SetLargeMap_run [of h allProperties] SetLargeMap_begin_fails [of h allProperties e]
      SetLargeMap_write_fails [of j h allProperties e]
    by blast
qed


theorem SetLargeMap_unchecked_bulk_witness:
  "SetLargeMap emptyHost
     [(''bob'', [(''password'', ''x''), (''number'', ''42'')]),
      (''alice'' @ fieldSep, [(''number'' @ fieldSep, ''42'')])]
    = (None, emptyHost\<lparr>set_rows := [''password'', ''number'', ''number'' @ fieldSep],
                        kv_rows := [(''bob'' @ fieldSep @ ''password'', ''x''),
                                    (''bob'' @ fieldSep @ ''number'', ''42''),
                                    (''alice'' @ fieldSep @ fieldSep @ ''number'' @ fieldSep, ''42'')]\<rparr>)
   \<and> SetLargeMap
       (emptyHost\<lparr>faults := [None, None, None, None, None, None, Some (BackingStoreError ''lost''),
                              None]\<rparr>)
       [(''bob'', [(''password'', ''x''), (''number'', ''42'')]),
        (''alice'' @ fieldSep, [(''number'' @ fieldSep, ''42'')])]
    = (Some (BackingStoreError ''lost''),
       emptyHost\<lparr>set_rows := [''password'', ''number'', ''number'' @ fieldSep],
                  faults := [None]\<rparr>)"
  using SetLargeMap_unchecked_bulk [of emptyHost
      "[(''bob'', [(''password'', ''x''), (''number'', ''42'')]),
        (''alice'' @ fieldSep, [(''number'' @ fieldSep, ''42'')])]" "BackingStoreError ''lost''" 1]
    SetLargeMap_unchecked_bulk [of
      "emptyHost\<lparr>faults := [None, None, None, None, None, None, Some (BackingStoreError ''lost''),
                              None]\<rparr>"
      "[(''bob'', [(''password'', ''x''), (''number'', ''42'')]),
        (''alice'' @ fieldSep, [(''number'' @ fieldSep, ''42'')])]" "BackingStoreError ''lost''" 1]
  by (simp add: emptyHost_def hm2_defs prim_defs fieldSep_def writes_of_def stored_value_def
      go_through_def fails_at_def)

subsection \<open>The invariant of the property set\<close>

lemma Contains_iff: "Contains s substr = (\<exists>a b. s = a @ substr @ b)"
proof (induction s)
  case Nil
  then show ?case by auto
next
  case (Cons c cs)
  show ?case
  proof
    assume "Contains (c # cs) substr"
    then consider "prefix substr (c # cs)" | "Contains cs substr" by auto
    then show "\<exists>a b. c # cs = a @ substr @ b"
    proof cases
      case 1
      then obtain b where "c # cs = substr @ b" by (auto simp: prefix_def)
      then have "c # cs = [] @ substr @ b" by simp
      then show ?thesis by blast
    next
      case 2
      with Cons.IH obtain a b where "cs = a @ substr @ b" by blast
      then have "c # cs = (c # a) @ substr @ b" by simp
      then show ?thesis by blast
    qed
  next
    assume "\<exists>a b. c # cs = a @ substr @ b"
    then obtain a b where ab: "c # cs = a @ substr @ b" by blast
    show "Contains (c # cs) substr"
    proof (cases a)
      case Nil
      with ab have "prefix substr (c # cs)" by (simp add: prefix_def)
      then show ?thesis by simp
    next
      case (Cons x a')
      with ab have "cs = a' @ substr @ b" by simp
      with Cons.IH have "Contains cs substr" by blast
      then show ?thesis by simp
    qed
  qed
qed

lemma key_parts_iff: "k \<in> set (key_parts ck) = (\<exists>owner. ck = owner @ fieldSep @ k)"
proof
  assume "k \<in> set (key_parts ck)"
  then obtain i where i: "prefix fieldSep (drop i ck)" "k = drop (i + length fieldSep) ck"
    by (auto simp: key_parts_def simp del: upt_Suc)
  from i(1) obtain rest where rest: "drop i ck = fieldSep @ rest" by (auto simp: prefix_def)
  have "drop (i + length fieldSep) ck = drop (length fieldSep) (drop i ck)"
    by (simp add: add.commute)
  with rest i(2) have "k = rest" by simp
  moreover have "ck = take i ck @ drop i ck" by simp
  ultimately have "ck = take i ck @ fieldSep @ k" using rest by simp
  then show "\<exists>owner. ck = owner @ fieldSep @ k" by blast
next
  assume "\<exists>owner. ck = owner @ fieldSep @ k"
  then obtain owner where ck: "ck = owner @ fieldSep @ k" by blast
  have "length owner \<in> set [0..<Suc (length ck)]" using ck by simp
  moreover have "prefix fieldSep (drop (length owner) ck)" using ck by simp
  moreover have "drop (length owner + length fieldSep) ck = k" using ck by simp
  ultimately show "k \<in> set (key_parts ck)"
    unfolding key_parts_def by (metis (mono_tags, lifting) image_eqI list.set_map mem_Collect_eq set_filter)
qed

lemma split_unique:
  assumes "\<not> Contains owner fieldSep" and "\<not> Contains key fieldSep"
    and "owner @ fieldSep @ key = owner' @ fieldSep @ key'"
  shows "key' = key"
proof -
  from iffD1 [OF append_eq_append_conv2 assms(3)]
  consider us where "owner = owner' @ us" "us @ fieldSep @ key = fieldSep @ key'"
    | us where "owner @ us = owner'" "fieldSep @ key = us @ fieldSep @ key'"
    by blast
  then show ?thesis
  proof cases
    case 1
    show ?thesis
    proof (cases us)
      case Nil
      with 1(2) show ?thesis by simp
    next
      case (Cons x us')
      show ?thesis
      proof (cases us')
        case Nil
        with 1(2) Cons show ?thesis by (simp add: fieldSep_def)
      next
        case (Cons y us'')
        with 1(2) \<open>us = x # us'\<close> have "us = fieldSep @ us''" by (simp add: fieldSep_def)
        with 1(1) have "owner = owner' @ fieldSep @ us''" by simp
        with assms(1) show ?thesis by (auto simp: Contains_iff)
      qed
    qed
  next
    case 2
    show ?thesis
    proof (cases us)
      case Nil
      with 2(2) show ?thesis by simp
    next
      case (Cons x us')
      show ?thesis
      proof (cases us')
        case Nil
        with 2(2) Cons show ?thesis by (simp add: fieldSep_def)
      next
        case (Cons y us'')
        with 2(2) \<open>us = x # us'\<close> have "key = us'' @ fieldSep @ key'" by (simp add: fieldSep_def)
        with assms(2) show ?thesis by (auto simp: Contains_iff)
      qed
    qed
  qed
qed

lemma property_keys_known_iff:
  "property_keys_known h
     = (\<forall>ck \<in> fst ` set (kv_rows h).
          \<exists>owner k. ck = owner @ fieldSep @ k \<and> k \<in> set (set_rows h))"
  unfolding property_keys_known_def list_all_iff list_ex_iff set_map Bex_def key_parts_iff
  by blast

lemma every_split_known_iff:
  "every_split_known h
     = (\<forall>owner k. owner @ fieldSep @ k \<in> fst ` set (kv_rows h) \<longrightarrow> k \<in> set (set_rows h))"
  unfolding every_split_known_def list_all_iff set_map Ball_def key_parts_iff
  by blast

lemma keys_apply_writes:
  "fst ` set (apply_writes rows transaction) = fst ` set rows \<union> fst ` set transaction"
proof (induction transaction arbitrary: rows)
  case Nil
  then show ?case by (simp add: apply_writes_def)
next
  case (Cons a transaction)
  obtain k v where a: "a = (k, v)" by (cases a)
  have "apply_writes rows (a # transaction) = apply_writes (AList.update k v rows) transaction"
    by (simp add: apply_writes_def a)
  then show ?case
    using Cons.IH [of "AList.update k v rows"] by (simp add: a dom_update)
qed

lemma keys_delete: "fst ` set (AList.delete k rows) \<subseteq> fst ` set rows"
  by (rule dom_delete_subset)

lemma keys_writes_of:
  "fst ` set (writes_of h owner m) = (\<lambda>k. owner @ fieldSep @ k) ` fst ` set m"
  by (induction m) (auto simp: writes_of_def)


lemma keys_all_writes:
  "ck \<in> fst ` set (all_writes h allProperties)
     = (\<exists>owner propMap k. (owner, propMap) \<in> set allProperties \<and> k \<in> fst ` set propMap
          \<and> ck = owner @ fieldSep @ k)"
proof (induction allProperties)
  case Nil
  then show ?case by simp
next
  case (Cons a allProperties)
  obtain owner propMap where a: "a = (owner, propMap)" by (cases a)
  have "ck \<in> fst ` set (all_writes h (a # allProperties))
      = (ck \<in> (\<lambda>k. owner @ fieldSep @ k) ` fst ` set propMap
         \<or> ck \<in> fst ` set (all_writes h allProperties))"
    unfolding a all_writes_Cons set_append image_Un Un_iff keys_writes_of ..
  also have "\<dots> = (\<exists>owner' propMap' k. (owner', propMap') \<in> set (a # allProperties)
      \<and> k \<in> fst ` set propMap' \<and> ck = owner' @ fieldSep @ k)"
    unfolding Cons.IH a set_simps by blast
  finally show ?case .
qed

lemma all_keys_iff:
  "k \<in> set (all_keys allProperties)
     = (\<exists>owner propMap. (owner, propMap) \<in> set allProperties \<and> k \<in> fst ` set propMap)"
proof (induction allProperties)
  case Nil
  then show ?case by simp
next
  case (Cons a allProperties)
  obtain owner propMap where a: "a = (owner, propMap)" by (cases a)
  have "k \<in> set (all_keys (a # allProperties))
      = (k \<in> fst ` set propMap \<or> k \<in> set (all_keys allProperties))"
    unfolding a all_keys_Cons set_append set_map Un_iff ..
  also have "\<dots> = (\<exists>owner' propMap'. (owner', propMap') \<in> set (a # allProperties)
      \<and> k \<in> fst ` set propMap')"
    unfolding Cons.IH a set_simps by blast
  finally show ?case .
qed

lemma known_after_writes:
  assumes "property_keys_known h"
    and "fst ` set (kv_rows h') \<subseteq> fst ` set (kv_rows h) \<union> W"
    and "set (set_rows h) \<subseteq> set (set_rows h')"
    and "\<And>ck. ck \<in> W \<Longrightarrow> \<exists>owner k. ck = owner @ fieldSep @ k \<and> k \<in> set (set_rows h')"
  shows "property_keys_known h'"
  unfolding property_keys_known_iff
proof
  fix ck
  assume "ck \<in> fst ` set (kv_rows h')"
  with assms(2) consider "ck \<in> fst ` set (kv_rows h)" | "ck \<in> W" by blast
  then show "\<exists>owner k. ck = owner @ fieldSep @ k \<and> k \<in> set (set_rows h')"
  proof cases
    case 1
    with assms(1) obtain owner k where "ck = owner @ fieldSep @ k" "k \<in> set (set_rows h)"
      unfolding property_keys_known_iff by blast
    with assms(3) show ?thesis by blast
  next
    case 2
    then show ?thesis by (rule assms(4))
  qed
qed

lemma splits_known_after_writes:
  assumes "every_split_known h"
    and "fst ` set (kv_rows h') \<subseteq> fst ` set (kv_rows h) \<union> W"
    and "set (set_rows h) \<subseteq> set (set_rows h')"
    and "\<And>owner k. owner @ fieldSep @ k \<in> W \<Longrightarrow> k \<in> set (set_rows h')"
  shows "every_split_known h'"
  unfolding every_split_known_iff
proof (intro allI impI)
  fix owner k
  assume "owner @ fieldSep @ k \<in> fst ` set (kv_rows h')"
  with assms(2) consider "owner @ fieldSep @ k \<in> fst ` set (kv_rows h)"
    | "owner @ fieldSep @ k \<in> W" by blast
  then show "k \<in> set (set_rows h')"
  proof cases
    case 1
    with assms(1) have "k \<in> set (set_rows h)"
      unfolding every_split_known_iff by blast
    with assms(3) show ?thesis by blast
  next
    case 2
    then show ?thesis by (rule assms(4))
  qed
qed

end
